theory Spec2Isabelle
  imports Main
begin

section \<open>Types and type traits\<close>

text \<open>
  The container is a family of templates indexed by C++ types. A type is a named class
  (or builtin), possibly wrapped by cv-qualifiers, references or \<open>std::shared_ptr\<close>.
\<close>

datatype ctype =
    Named string
  | Const ctype
  | Volatile ctype
  | LRef ctype
  | RRef ctype
  | Shared_ptr ctype

text \<open>\<open>std::remove_reference_t\<close> and \<open>std::remove_cv_t\<close> (top-level qualifiers only).\<close>

fun remove_reference :: "ctype \<Rightarrow> ctype" where
  "remove_reference (LRef t) = t"
| "remove_reference (RRef t) = t"
| "remove_reference t = t"

fun remove_cv :: "ctype \<Rightarrow> ctype" where
  "remove_cv (Const t) = remove_cv t"
| "remove_cv (Volatile t) = remove_cv t"
| "remove_cv t = t"

text \<open>
  \<open>internal::is_shared_ptr\<close>: the primary template is \<open>false_type\<close>, the partial
  specialisation for \<open>std::shared_ptr<T>\<close> is \<open>true_type\<close>. A cv-qualified or reference
  type does not match the specialisation.
\<close>

fun is_shared_ptr :: "ctype \<Rightarrow> bool" where
  "is_shared_ptr (Shared_ptr t) = True"
| "is_shared_ptr t = False"

text \<open>\<open>T::element_type\<close>; only \<open>std::shared_ptr\<close> has the member.\<close>

fun element_type :: "ctype \<Rightarrow> ctype option" where
  "element_type (Shared_ptr t) = Some t"
| "element_type t = None"

section \<open>The binding registry at run time\<close>

text \<open>
  A \<open>std::shared_ptr\<close> value is the address of the object it shares, or empty (\<open>None\<close>).
  \<open>std::make_shared\<close> allocates the next free address of the heap; nothing is ever
  freed, since every object built by a factory is held by a static \<open>obj\<close>.
  An object records its class and the constructor arguments it received.
\<close>

type_synonym handle = "nat option"

record object =
  cls :: ctype
  args :: "handle list"

text \<open>
  The four lambdas that \<open>add\<close> can store in \<open>registry<INTERFACE_T>::constructor\<close>. They
  capture nothing; each is determined by the template arguments \<open>INTERFACE_T\<close>, \<open>T\<close> and,
  for a class that is not default constructible, by the tuple type \<open>as_tuple<T>\<close>.
\<close>

datatype factory =
    Default_ctor ctype ctype
  | Tuple_ctor ctype ctype "ctype list"

datatype once_flag = Idle | Active | Done

text \<open>
  \<open>registry<T>\<close> has three static members per \<open>T\<close>: \<open>flag\<close>, \<open>obj\<close> and \<open>constructor\<close>
  (\<open>None\<close> is the empty \<open>std::function\<close>).
\<close>

record di_state =
  flag :: "ctype \<Rightarrow> once_flag"
  obj :: "ctype \<Rightarrow> handle"
  constructor :: "ctype \<Rightarrow> factory option"
  heap :: "object list"

definition init_state :: di_state where
  "init_state = \<lparr>flag = (\<lambda>_. Idle), obj = (\<lambda>_. None), constructor = (\<lambda>_. None), heap = []\<rparr>"

datatype exn = Bad_function_call

datatype build_error =
    Not_detected_in_di_container ctype
  | Fail_type ctype ctype
  | No_matching_add ctype ctype
  | Depth_exceeded ctype
  | Bad_tuple_index ctype nat
  | Undeduced_loophole ctype nat

text \<open>
  What a call does: it returns a value and a new state, it throws, it never returns
  (a thread waiting for its own \<open>std::call_once\<close>), or the model ran out of fuel.
  \<open>Ill_formed\<close> marks a branch that exists only in a program that does not build.
\<close>

datatype 'a outcome =
    Returned 'a di_state
  | Thrown exn di_state
  | Blocked
  | Ill_formed build_error
  | Out_of_fuel

definition make_shared :: "ctype \<Rightarrow> handle list \<Rightarrow> di_state \<Rightarrow> handle \<times> di_state" where
  "make_shared T as s = (Some (length (heap s)), s\<lparr>heap := heap s @ [\<lparr>cls = T, args = as\<rparr>]\<rparr>)"

text \<open>\<open>std::static_pointer_cast\<close> keeps the address.\<close>

definition static_pointer_cast :: "ctype \<Rightarrow> handle \<Rightarrow> handle" where
  "static_pointer_cast I h = h"

text \<open>
  \<open>registry<T>::get\<close>, the stored lambdas, \<open>construct_tuple_assign\<close>, and the
  \<open>construct_tuple\<close> overload that expands the index pack inside a braced list, left to
  right.
  \<open>std::call_once\<close>: a finished flag returns at once; an active flag on the calling thread
  never returns; otherwise the callable runs, and an exception leaves the flag unset.
  The fuel bounds the nesting depth of factory invocations.
\<close>

function (sequential) registry_get :: "nat \<Rightarrow> ctype \<Rightarrow> di_state \<Rightarrow> handle outcome"
  and invoke :: "nat \<Rightarrow> factory \<Rightarrow> di_state \<Rightarrow> handle outcome"
  and construct_tuple_assign ::
    "nat \<Rightarrow> ctype \<Rightarrow> nat \<Rightarrow> ctype list \<Rightarrow> handle list \<Rightarrow> di_state \<Rightarrow> handle list outcome"
  and construct_tuple ::
    "nat \<Rightarrow> ctype \<Rightarrow> ctype list \<Rightarrow> nat list \<Rightarrow> handle list \<Rightarrow> di_state \<Rightarrow> handle list outcome"
where
  "registry_get fuel T s =
     (case flag s T of
        Done \<Rightarrow> Returned (obj s T) s
      | Active \<Rightarrow> Blocked
      | Idle \<Rightarrow>
          (case fuel of
             0 \<Rightarrow> Out_of_fuel
           | Suc n \<Rightarrow>
               (case constructor s T of
                  None \<Rightarrow> Thrown Bad_function_call s
                | Some f \<Rightarrow>
                    (case invoke n f (s\<lparr>flag := (flag s)(T := Active)\<rparr>) of
                       Returned h s' \<Rightarrow>
                         Returned h (s'\<lparr>obj := (obj s')(T := h), flag := (flag s')(T := Done)\<rparr>)
                     | Thrown e s' \<Rightarrow> Thrown e (s'\<lparr>flag := (flag s')(T := Idle)\<rparr>)
                     | Blocked \<Rightarrow> Blocked
                     | Ill_formed e \<Rightarrow> Ill_formed e
                     | Out_of_fuel \<Rightarrow> Out_of_fuel))))"
| "invoke fuel (Default_ctor I T) s =
     (case make_shared T [] s of
        (h, s') \<Rightarrow> Returned (if T = I then h else static_pointer_cast I h) s')"
| "invoke fuel (Tuple_ctor I T ctr_type) s =
     (case construct_tuple fuel T ctr_type [0..<length ctr_type - 0]
             (replicate (length ctr_type) None) s of
        Returned tuple s' \<Rightarrow>
          (case make_shared T tuple s' of
             (h, s'') \<Rightarrow> Returned (if T = I then h else static_pointer_cast I h) s'')
      | Thrown e s' \<Rightarrow> Thrown e s'
      | Blocked \<Rightarrow> Blocked
      | Ill_formed e \<Rightarrow> Ill_formed e
      | Out_of_fuel \<Rightarrow> Out_of_fuel)"
| "construct_tuple_assign fuel BASE_T N TUPLE_T tuple s =
     (if N < length TUPLE_T then
        (case element_type (TUPLE_T ! N) of
           Some E \<Rightarrow>
             (case registry_get fuel E s of
                Returned h s' \<Rightarrow> Returned (tuple[N := h]) s'
              | Thrown e s' \<Rightarrow> Thrown e s'
              | Blocked \<Rightarrow> Blocked
              | Ill_formed e \<Rightarrow> Ill_formed e
              | Out_of_fuel \<Rightarrow> Out_of_fuel)
         | None \<Rightarrow> Ill_formed (Fail_type BASE_T (TUPLE_T ! N)))
      else Ill_formed (Bad_tuple_index BASE_T N))"
| "construct_tuple fuel BASE_T TUPLE_T [] tuple s = Returned tuple s"
| "construct_tuple fuel BASE_T TUPLE_T (N # indices) tuple s =
     (case construct_tuple_assign fuel BASE_T N TUPLE_T tuple s of
        Returned tuple' s' \<Rightarrow> construct_tuple fuel BASE_T TUPLE_T indices tuple' s'
      | Thrown e s' \<Rightarrow> Thrown e s'
      | Blocked \<Rightarrow> Blocked
      | Ill_formed e \<Rightarrow> Ill_formed e
      | Out_of_fuel \<Rightarrow> Out_of_fuel)"
  by pat_completeness auto

text \<open>
  Termination: the fuel never grows, and at equal fuel a lambda calls \<open>construct_tuple\<close>,
  which calls \<open>construct_tuple_assign\<close> and itself on a shorter pack, which calls
  \<open>registry<E>::get\<close>, which spends fuel to invoke a lambda.
\<close>

termination
  by (relation "(\<lambda>x. case x of
          Inl (Inl (fuel, T, s)) \<Rightarrow> fuel
        | Inl (Inr (fuel, f, s)) \<Rightarrow> fuel
        | Inr (Inl (fuel, B, N, tt, tu, s)) \<Rightarrow> fuel
        | Inr (Inr (fuel, B, tt, ixs, tu, s)) \<Rightarrow> fuel) <*mlex*>
      measure (\<lambda>x. case x of
          Inl (Inl (fuel, T, s)) \<Rightarrow> 0
        | Inl (Inr (fuel, f, s)) \<Rightarrow>
            (case f of Default_ctor I T \<Rightarrow> 0 | Tuple_ctor I T ct \<Rightarrow> length ct + 3)
        | Inr (Inl (fuel, B, N, tt, tu, s)) \<Rightarrow> 1
        | Inr (Inr (fuel, B, tt, ixs, tu, s)) \<Rightarrow> length ixs + 2)")
    (auto simp: wf_mlex mlex_less mlex_leq)

text \<open>
  What the compiler fixed for the classes of the program: \<open>std::is_default_constructible_v\<close>
  chooses the overload of \<open>add\<close>, and \<open>as_tuple_t T\<close> is the tuple type
  \<open>refl::as_tuple<T>\<close> named \<open>ctr_type\<close> in the second overload.
\<close>

record program =
  is_default_constructible :: "ctype \<Rightarrow> bool"
  as_tuple_t :: "ctype \<Rightarrow> ctype list"

text \<open>The first overload of \<open>add\<close> (default constructible \<open>T\<close>).\<close>

definition add_default :: "ctype \<Rightarrow> ctype \<Rightarrow> di_state \<Rightarrow> di_state" where
  "add_default I T s =
     (if constructor s I \<noteq> None then s
      else s\<lparr>constructor := (constructor s)(I \<mapsto> Default_ctor I T)\<rparr>)"

text \<open>The second overload of \<open>add\<close>, with \<open>ctr_type = as_tuple<T>\<close>.\<close>

definition add_tuple :: "ctype list \<Rightarrow> ctype \<Rightarrow> ctype \<Rightarrow> di_state \<Rightarrow> di_state" where
  "add_tuple ctr_type I T s =
     (if constructor s I \<noteq> None then s
      else s\<lparr>constructor := (constructor s)(I \<mapsto> Tuple_ctor I T ctr_type)\<rparr>)"

definition add :: "program \<Rightarrow> ctype \<Rightarrow> ctype \<Rightarrow> di_state \<Rightarrow> di_state" where
  "add p I T s =
     (if is_default_constructible p T then add_default I T s
      else add_tuple (as_tuple_t p T) I T s)"

text \<open>\<open>add<T>()\<close> is \<open>add<T, T>()\<close>.\<close>

definition add_self :: "program \<Rightarrow> ctype \<Rightarrow> di_state \<Rightarrow> di_state" where
  "add_self p T s = add p T T s"

text \<open>\<open>di::get<T>\<close>: \<open>check_type\<close> has no run-time content, the call is \<open>registry<T>::get()\<close>.\<close>

definition get :: "nat \<Rightarrow> ctype \<Rightarrow> di_state \<Rightarrow> handle outcome" where
  "get fuel T s = registry_get fuel T s"

text \<open>
  The calls a program makes at run time. A call that returns or throws (the caller
  catching the exception) leaves a state in which the program goes on; a call that never
  returns leaves none.
\<close>

datatype call = Add ctype ctype | Add_self ctype | Get ctype

fun exec :: "program \<Rightarrow> nat \<Rightarrow> call \<Rightarrow> di_state \<Rightarrow> di_state option" where
  "exec p fuel (Add I T) s = Some (add p I T s)"
| "exec p fuel (Add_self T) s = Some (add_self p T s)"
| "exec p fuel (Get T) s =
     (case get fuel T s of
        Returned h s' \<Rightarrow> Some s'
      | Thrown e s' \<Rightarrow> Some s'
      | Blocked \<Rightarrow> None
      | Ill_formed e \<Rightarrow> None
      | Out_of_fuel \<Rightarrow> None)"

fun run :: "program \<Rightarrow> nat \<Rightarrow> call list \<Rightarrow> di_state \<Rightarrow> di_state option" where
  "run p fuel [] s = Some s"
| "run p fuel (c # cs) s =
     (case exec p fuel c s of None \<Rightarrow> None | Some s' \<Rightarrow> run p fuel cs s')"

text \<open>The number of objects of class \<open>C\<close> that constructors have built.\<close>

definition constructed :: "ctype \<Rightarrow> di_state \<Rightarrow> nat" where
  "constructed C s = length (filter (\<lambda>ob. cls ob = C) (heap s))"

section \<open>Signature discovery at compile time\<close>

text \<open>
  The friend functions \<open>loophole(tag<T, N>)\<close> defined so far, each with its return type;
  \<open>cloophole(tag<T, N>)\<close> is defined by the same instantiation of \<open>fn_def\<close>.
\<close>

type_synonym loopholes = "ctype \<times> nat \<Rightarrow> ctype option"

text \<open>The \<open>enable_if\<close> condition of the last template parameter of \<open>fn_def\<close>.\<close>

definition fn_def_enabled :: "ctype \<Rightarrow> ctype \<Rightarrow> bool" where
  "fn_def_enabled T U \<longleftrightarrow>
     remove_cv (remove_reference T) \<noteq> remove_cv (remove_reference U)"

text \<open>
  \<open>c_op<T, N>::ins<U, M>(0)\<close> has type \<open>char\<close> when \<open>cloophole(tag<T, M>{})\<close> is a
  constant expression, that is when the friend is defined, and \<open>int\<close> otherwise.
\<close>

definition ins_is_char :: "loopholes \<Rightarrow> ctype \<Rightarrow> nat \<Rightarrow> bool" where
  "ins_is_char tbl T M \<longleftrightarrow> tbl (T, M) \<noteq> None"

text \<open>
  Instantiating \<open>fn_def<T, U, N, B>\<close>: the default argument fails when the condition
  does; the specialisation for \<open>B = true\<close> is empty; the primary template defines
  \<open>loophole(tag<T, N>)\<close> returning \<open>U{}\<close>, whose deduced return type is the decayed
  type: \<open>auto\<close> drops the reference and the top-level cv-qualifiers.
\<close>

definition fn_def :: "ctype \<Rightarrow> ctype \<Rightarrow> nat \<Rightarrow> bool \<Rightarrow> loopholes \<Rightarrow> loopholes option" where
  "fn_def T U N B tbl =
     (if \<not> fn_def_enabled T U then None
      else if B then Some tbl
      else Some (tbl((T, N) \<mapsto> remove_cv (remove_reference U))))"

text \<open>
  \<open>c_op<T, N>::operator U()\<close>: the conversion exists when its default template
  argument \<open>sizeof(fn_def<T, U, N, sizeof(ins<U, N>(0)) == sizeof(char)>)\<close> is well
  formed, and naming it instantiates \<open>fn_def\<close>.
\<close>

definition c_op_convert :: "ctype \<Rightarrow> nat \<Rightarrow> ctype \<Rightarrow> loopholes \<Rightarrow> loopholes option" where
  "c_op_convert T N U tbl = fn_def T U N (ins_is_char tbl T N) tbl"

text \<open>
  Overload resolution asks for conversions of probes (class, index, target type) in some
  order; a conversion that does not exist changes nothing.
\<close>

fun conversions :: "(ctype \<times> nat \<times> ctype) list \<Rightarrow> loopholes \<Rightarrow> loopholes" where
  "conversions [] tbl = tbl"
| "conversions ((T, N, U) # rs) tbl =
     (case c_op_convert T N U tbl of
        None \<Rightarrow> conversions rs tbl
      | Some tbl' \<Rightarrow> conversions rs tbl')"

text \<open>
  \<open>sizeof...(Ns)\<close> is a 64-bit \<open>size_t\<close>; the functions return \<open>int\<close> (32 bits, two's
  complement).
\<close>

definition to_int :: "int \<Rightarrow> int" where
  "to_int x = (let y = x mod 2 ^ 32 in if y < 2 ^ 31 then y else y - 2 ^ 32)"

definition sizeof_pack :: "nat list \<Rightarrow> int" where
  "sizeof_pack Ns = int (length Ns) mod 2 ^ 64"

text \<open>\<open>sizeof...(Ns) - 1\<close>, the subtraction in \<open>size_t\<close>, as an \<open>int\<close>.\<close>

definition sizeof_pack_minus_1 :: "nat list \<Rightarrow> int" where
  "sizeof_pack_minus_1 Ns = to_int ((sizeof_pack Ns - 1) mod 2 ^ 64)"

text \<open>\<open>sizeof...(Ns)\<close> as an \<open>int\<close>.\<close>

definition sizeof_pack_int :: "nat list \<Rightarrow> int" where
  "sizeof_pack_int Ns = to_int (sizeof_pack Ns)"


text \<open>
  \<open>fields_number_ctor<T, Ns...>\<close>. The overload taking \<open>int\<close> is chosen when
  \<open>T(c_op<T, Ns>{}...)\<close> is well formed (\<open>direct_init Ns\<close>) and returns
  \<open>sizeof...(Ns)\<close>; otherwise the variadic overload tries one more probe.
\<close>

fun fields_number_ctor :: "(nat list \<Rightarrow> bool) \<Rightarrow> nat \<Rightarrow> nat list \<Rightarrow> int option" where
  "fields_number_ctor direct_init 0 Ns =
     (if direct_init Ns then Some (sizeof_pack_int Ns) else None)"
| "fields_number_ctor direct_init (Suc depth) Ns =
     (if direct_init Ns then Some (sizeof_pack_int Ns)
      else fields_number_ctor direct_init depth (Ns @ [length Ns]))"

text \<open>\<open>std::make_integer_sequence<int, N>\<close>; a negative \<open>N\<close> is ill formed.\<close>

definition make_integer_sequence :: "int \<Rightarrow> nat list option" where
  "make_integer_sequence N = (if N < 0 then None else Some [0..<nat N])"

text \<open>
  \<open>loophole_tuple<T, integer_sequence<int, Ns...>>::type\<close>: the return types of
  \<open>loophole(tag<T, Ns>{})...\<close>, in the order of the pack. A friend that was never
  defined has no deduced return type.
\<close>

fun loophole_tuple :: "loopholes \<Rightarrow> ctype \<Rightarrow> nat list \<Rightarrow> build_error + ctype list" where
  "loophole_tuple tbl T [] = Inr []"
| "loophole_tuple tbl T (N # Ns) =
     (case tbl (T, N) of
        None \<Rightarrow> Inl (Undeduced_loophole T N)
      | Some U \<Rightarrow>
          (case loophole_tuple tbl T Ns of
             Inl e \<Rightarrow> Inl e
           | Inr Us \<Rightarrow> Inr (U # Us)))"

text \<open>
  What the compiler knows of the classes of the program: the two type traits that \<open>add\<close>
  tests, which probe expressions are well formed, and its instantiation depth limit.
\<close>

record classes =
  default_constructible :: "ctype \<Rightarrow> bool"
  base_of :: "ctype \<Rightarrow> ctype \<Rightarrow> bool"
  direct_init :: "ctype \<Rightarrow> nat list \<Rightarrow> bool"
  list_init :: "ctype \<Rightarrow> nat list \<Rightarrow> bool"
  depth_limit :: nat

text \<open>\<open>refl::as_tuple<T>\<close>, read from the friends that probing has left.\<close>

definition as_tuple :: "classes \<Rightarrow> loopholes \<Rightarrow> ctype \<Rightarrow> build_error + ctype list" where
  "as_tuple cl tbl T =
     (case fields_number_ctor (direct_init cl T) (depth_limit cl) [] of
        None \<Rightarrow> Inl (Depth_exceeded T)
      | Some N \<Rightarrow>
          (case make_integer_sequence N of
             None \<Rightarrow> Inl (Depth_exceeded T)
           | Some Ns \<Rightarrow> loophole_tuple tbl T Ns))"

section \<open>The type registration ledger and the build\<close>

text \<open>
  The types \<open>T\<close> for which \<open>loophole_t<T>\<close> has been instantiated, so that
  \<open>not_detected_in_di_container(tag_t<T>)\<close> has a definition and a deduced return type.
\<close>

type_synonym ledger = "ctype set"

definition set_type :: "ctype \<Rightarrow> ledger \<Rightarrow> ledger" where
  "set_type T L = insert T L"

definition check_type :: "ctype \<Rightarrow> ledger \<Rightarrow> build_error + ledger" where
  "check_type T L = (if T \<in> L then Inr L else Inl (Not_detected_in_di_container T))"

text \<open>
  Instantiating \<open>construct_tuple_assign<BASE_T, N, TUPLE_T>\<close>: the discarded branch of
  \<open>if constexpr\<close> is not instantiated, the other one instantiates \<open>fail_type<BASE_T, T>\<close>,
  whose \<open>static_assert\<close> fails. The assertion is taken to fail when \<open>fail_type\<close> is
  instantiated, not when the template is defined; the error carries the two template
  arguments, the class and the parameter type, as the compiler's instantiation note does.
\<close>

definition inst_construct_tuple_assign :: "ctype \<Rightarrow> nat \<Rightarrow> ctype list \<Rightarrow> build_error list" where
  "inst_construct_tuple_assign BASE_T N TUPLE_T =
     (if N < length TUPLE_T then
        (if is_shared_ptr (TUPLE_T ! N) then [] else [Fail_type BASE_T (TUPLE_T ! N)])
      else [Bad_tuple_index BASE_T N])"

text \<open>Instantiating \<open>construct_tuple<BASE_T, From, To, TUPLE_T>\<close>: one instantiation per index.\<close>

definition inst_construct_tuple :: "ctype \<Rightarrow> nat \<Rightarrow> nat \<Rightarrow> ctype list \<Rightarrow> build_error list" where
  "inst_construct_tuple BASE_T From To TUPLE_T =
     concat (map (\<lambda>N. inst_construct_tuple_assign BASE_T N TUPLE_T) [0..<To - From])"

text \<open>
  Instantiating \<open>add<INTERFACE_T, T>\<close>: the constraint shared by both overloads, the
  overload chosen by \<open>std::is_default_constructible_v<T>\<close>, \<open>set_type\<close>, and for the second
  overload \<open>as_tuple<T>\<close> and the body of the lambda.
\<close>

definition inst_add :: "classes \<Rightarrow> loopholes \<Rightarrow> ctype \<Rightarrow> ctype \<Rightarrow> ledger \<Rightarrow> build_error + ledger" where
  "inst_add cl tbl I T L =
     (if \<not> (I = T \<or> base_of cl I T) then Inl (No_matching_add I T)
      else if default_constructible cl T then Inr (set_type I L)
      else
        (case as_tuple cl tbl T of
           Inl e \<Rightarrow> Inl e
         | Inr ctr_type \<Rightarrow>
             (case inst_construct_tuple T 0 (length ctr_type) ctr_type of
                [] \<Rightarrow> Inr (set_type I L)
              | e # es \<Rightarrow> Inl e)))"

definition inst_add_self :: "classes \<Rightarrow> loopholes \<Rightarrow> ctype \<Rightarrow> ledger \<Rightarrow> build_error + ledger" where
  "inst_add_self cl tbl T L = inst_add cl tbl T T (set_type T L)"

definition inst_get :: "ctype \<Rightarrow> ledger \<Rightarrow> build_error + ledger" where
  "inst_get T L = check_type T L"

text \<open>
  A translation unit instantiates the templates its calls name, in the order the
  compiler meets them; the build stops at the first error.
\<close>

fun inst :: "classes \<Rightarrow> loopholes \<Rightarrow> call \<Rightarrow> ledger \<Rightarrow> build_error + ledger" where
  "inst cl tbl (Add I T) L = inst_add cl tbl I T L"
| "inst cl tbl (Add_self T) L = inst_add_self cl tbl T L"
| "inst cl tbl (Get T) L = inst_get T L"

fun build :: "classes \<Rightarrow> loopholes \<Rightarrow> call list \<Rightarrow> ledger \<Rightarrow> build_error + ledger" where
  "build cl tbl [] L = Inr L"
| "build cl tbl (c # cs) L =
     (case inst cl tbl c L of Inl e \<Rightarrow> Inl e | Inr L' \<Rightarrow> build cl tbl cs L')"

text \<open>The run-time view of a program that was built from \<open>cl\<close> and \<open>tbl\<close>.\<close>

definition compiled :: "classes \<Rightarrow> loopholes \<Rightarrow> program" where
  "compiled cl tbl =
     \<lparr>is_default_constructible = default_constructible cl,
      as_tuple_t = (\<lambda>T. case as_tuple cl tbl T of Inl e \<Rightarrow> [] | Inr ctr_type \<Rightarrow> ctr_type)\<rparr>"

section \<open>Example classes\<close>

text \<open>
  A class with a constructor of one parameter and a constructor of two: direct
  construction is well formed from one probe and from two.
\<close>

definition one_or_two_ctor :: "nat list \<Rightarrow> bool" where
  "one_or_two_ctor Ns \<longleftrightarrow> length Ns = 1 \<or> length Ns = 2"

text \<open>A class whose only constructor takes one parameter.\<close>

definition one_ctor :: "nat list \<Rightarrow> bool" where
  "one_ctor Ns \<longleftrightarrow> length Ns = 1"

text \<open>An aggregate with two fields: list-initialisation is well formed from up to two probes.\<close>

definition two_fields :: "nat list \<Rightarrow> bool" where
  "two_fields Ns \<longleftrightarrow> length Ns \<le> 2"

text \<open>
  A small program: two logging interfaces, two default-constructible loggers, a service
  whose constructor takes a \<open>std::shared_ptr<ILogger>\<close> and that implements two
  interfaces, a default-constructible class derived from the service, a counter whose
  constructor takes an \<open>int\<close>, and an aggregate of two handles.
\<close>

definition ILogger :: ctype where "ILogger = Named ''ILogger''"
definition ISink :: ctype where "ISink = Named ''ISink''"
definition FileLogger :: ctype where "FileLogger = Named ''FileLogger''"
definition ConsoleLogger :: ctype where "ConsoleLogger = Named ''ConsoleLogger''"
definition Service :: ctype where "Service = Named ''Service''"
definition Counter :: ctype where "Counter = Named ''Counter''"
definition IService :: ctype where "IService = Named ''IService''"
definition IRunner :: ctype where "IRunner = Named ''IRunner''"
definition MockService :: ctype where "MockService = Named ''MockService''"
definition Duo :: ctype where "Duo = Named ''Duo''"

definition demo_classes :: classes where
  "demo_classes =
     \<lparr>default_constructible =
        (\<lambda>T. T = FileLogger \<or> T = ConsoleLogger \<or> T = MockService \<or> T = Duo),
      base_of = (\<lambda>I T. (I = ILogger \<and> (T = FileLogger \<or> T = ConsoleLogger))
                       \<or> (I = ISink \<and> T = FileLogger)
                       \<or> ((I = IService \<or> I = IRunner) \<and> (T = Service \<or> T = MockService))
                       \<or> (I = Service \<and> T = MockService)),
      direct_init =
        (\<lambda>T Ns. ((T = FileLogger \<or> T = ConsoleLogger \<or> T = MockService \<or> T = Duo) \<and> Ns = [])
               \<or> ((T = Service \<or> T = Counter) \<and> length Ns = 1)),
      list_init =
        (\<lambda>T Ns. ((T = FileLogger \<or> T = ConsoleLogger \<or> T = MockService) \<and> Ns = [])
               \<or> ((T = Service \<or> T = Counter) \<and> length Ns = 1)
               \<or> (T = Duo \<and> length Ns \<le> 2)),
      depth_limit = 3\<rparr>"

text \<open>
  The conversions that probing \<open>Service\<close> and \<open>Counter\<close> asks for: to the parameter
  types of the copy and move constructors, and to the parameter type of the constructor;
  and the conversions that list-initialising \<open>Duo\<close> asks for: to its two field types.
\<close>

definition demo_loopholes :: loopholes where
  "demo_loopholes =
     conversions [(Service, 0, LRef (Const Service)), (Service, 0, RRef Service),
                  (Service, 0, Shared_ptr ILogger),
                  (Counter, 0, LRef (Const Counter)), (Counter, 0, RRef Counter),
                  (Counter, 0, Named ''int''),
                  (Duo, 0, Shared_ptr ILogger), (Duo, 1, Shared_ptr ISink)] Map.empty"

definition demo :: program where
  "demo = compiled demo_classes demo_loopholes"

text \<open>
  Two classes that depend on each other: the constructor of each takes a handle of the
  other.
\<close>

definition Ping :: ctype where "Ping = Named ''Ping''"
definition Pong :: ctype where "Pong = Named ''Pong''"

definition ring_classes :: classes where
  "ring_classes =
     \<lparr>default_constructible = (\<lambda>T. False),
      base_of = (\<lambda>I T. False),
      direct_init = (\<lambda>T Ns. (T = Ping \<or> T = Pong) \<and> length Ns = 1),
      list_init = (\<lambda>T Ns. (T = Ping \<or> T = Pong) \<and> length Ns = 1),
      depth_limit = 3\<rparr>"

definition ring_loopholes :: loopholes where
  "ring_loopholes =
     conversions [(Ping, 0, Shared_ptr Pong), (Pong, 0, Shared_ptr Ping)] Map.empty"

definition ring :: program where
  "ring = compiled ring_classes ring_loopholes"

section \<open>Notions used in the statements and proofs\<close>

text \<open>
  Every recorded return type comes from a conversion that passed the \<open>enable_if\<close>
  condition of \<open>fn_def\<close>.
\<close>

definition recorded_ok :: "loopholes \<Rightarrow> bool" where
  "recorded_ok tbl \<longleftrightarrow>
     (\<forall>T N R. tbl (T, N) = Some R \<longrightarrow>
        (\<exists>U. R = remove_cv (remove_reference U) \<and> fn_def_enabled T U))"

text \<open>The types that an instantiation marks in the ledger.\<close>

fun marks :: "call \<Rightarrow> ctype set" where
  "marks (Add I T) = {I}"
| "marks (Add_self T) = {T}"
| "marks (Get T) = {}"



text \<open>
  Following the words of the specification of the factory: each parameter is resolved by
  \<open>get\<close> of its element type, in signature order, and the results are collected
  positionally.
\<close>

fun resolve_in_order :: "nat \<Rightarrow> ctype list \<Rightarrow> di_state \<Rightarrow> handle list outcome" where
  "resolve_in_order fuel [] s = Returned [] s"
| "resolve_in_order fuel (E # Es) s =
     (case get fuel E s of
        Returned h s' \<Rightarrow>
          (case resolve_in_order fuel Es s' of
             Returned hs s'' \<Rightarrow> Returned (h # hs) s''
           | Thrown e s'' \<Rightarrow> Thrown e s''
           | Blocked \<Rightarrow> Blocked
           | Ill_formed e \<Rightarrow> Ill_formed e
           | Out_of_fuel \<Rightarrow> Out_of_fuel)
      | Thrown e s' \<Rightarrow> Thrown e s'
      | Blocked \<Rightarrow> Blocked
      | Ill_formed e \<Rightarrow> Ill_formed e
      | Out_of_fuel \<Rightarrow> Out_of_fuel)"

text \<open>The element types of the handles of a tuple type.\<close>

definition element_types :: "ctype list \<Rightarrow> ctype list" where
  "element_types TUPLE_T = List.map_filter element_type TUPLE_T"

text \<open>The class that a stored lambda builds, and the element types it resolves.\<close>

fun impl_of :: "factory \<Rightarrow> ctype" where
  "impl_of (Default_ctor I T) = T"
| "impl_of (Tuple_ctor I T ctr_type) = T"

fun deps_of :: "factory \<Rightarrow> ctype list" where
  "deps_of (Default_ctor I T) = []"
| "deps_of (Tuple_ctor I T ctr_type) = element_types ctr_type"

text \<open>
  What a call that returns or throws leaves untouched: the stored lambdas, the objects
  already built, the finished registries, and which registries are being initialised.
  A registry that the call finishes holds an address that the call allocated.
\<close>

definition frame :: "di_state \<Rightarrow> di_state \<Rightarrow> bool" where
  "frame s s' \<longleftrightarrow>
     constructor s' = constructor s
     \<and> (\<exists>new. heap s' = heap s @ new)
     \<and> (\<forall>U. flag s U = Done \<longrightarrow> flag s' U = Done \<and> obj s' U = obj s U)
     \<and> (\<forall>U. flag s' U = Active \<longleftrightarrow> flag s U = Active)
     \<and> (\<forall>U a. flag s U \<noteq> Done \<and> flag s' U = Done \<and> obj s' U = Some a \<longrightarrow>
           length (heap s) \<le> a)"

text \<open>What a lambda returns: the address of the object it has just built.\<close>

definition built :: "factory \<Rightarrow> di_state \<Rightarrow> handle \<Rightarrow> di_state \<Rightarrow> bool" where
  "built f s h s' \<longleftrightarrow>
     (\<exists>a. h = Some a \<and> length (heap s) \<le> a \<and> Suc a = length (heap s')
        \<and> cls (heap s' ! a) = impl_of f)"

definition post :: "(di_state \<Rightarrow> di_state \<Rightarrow> bool) \<Rightarrow> di_state \<Rightarrow> 'a outcome \<Rightarrow> bool" where
  "post R s r =
     (case r of
        Returned a s' \<Rightarrow> R s s'
      | Thrown e s' \<Rightarrow> R s s'
      | Blocked \<Rightarrow> True
      | Ill_formed e \<Rightarrow> True
      | Out_of_fuel \<Rightarrow> True)"

text \<open>
  A finished registry holds the address of a live object of the class its lambda
  builds, and no two finished registries hold the same address.
\<close>

definition realized_ok :: "di_state \<Rightarrow> bool" where
  "realized_ok s \<longleftrightarrow>
     (\<forall>T. flag s T = Done \<longrightarrow>
        (\<exists>a f. obj s T = Some a \<and> a < length (heap s) \<and> constructor s T = Some f
           \<and> cls (heap s ! a) = impl_of f))
     \<and> (\<forall>T U. flag s T = Done \<and> flag s U = Done \<and> obj s T = obj s U \<longrightarrow> T = U)"

text \<open>The registries that hold a lambda and have not started initialising.\<close>

definition pending :: "di_state \<Rightarrow> ctype set" where
  "pending s = {T. constructor s T \<noteq> None \<and> flag s T = Idle}"

text \<open>
  Every stored lambda of a program that was built resolves handles only: the tuple type
  passed \<open>inst_construct_tuple\<close>.
\<close>

definition well_built :: "di_state \<Rightarrow> bool" where
  "well_built s \<longleftrightarrow>
     (\<forall>J I C ctr_type. constructor s J = Some (Tuple_ctor I C ctr_type) \<longrightarrow>
        list_all is_shared_ptr ctr_type)"

text \<open>
  A set of types is wired when each of them has a stored lambda whose element types
  are in the set again.
\<close>

definition wired :: "ctype set \<Rightarrow> di_state \<Rightarrow> bool" where
  "wired S s \<longleftrightarrow>
     (\<forall>T\<in>S. \<exists>f. constructor s T = Some f \<and> set (deps_of f) \<subseteq> S)"

text \<open>A call that neither throws nor belongs to a program that does not build.\<close>

definition no_failure :: "'a outcome \<Rightarrow> bool" where
  "no_failure r =
     (case r of
        Returned a s' \<Rightarrow> True
      | Thrown e s' \<Rightarrow> False
      | Blocked \<Rightarrow> True
      | Ill_formed e \<Rightarrow> False
      | Out_of_fuel \<Rightarrow> True)"

text \<open>The lambda that \<open>add<I, T>\<close> stores when \<open>I\<close> has none.\<close>

definition lambda_of :: "program \<Rightarrow> ctype \<Rightarrow> ctype \<Rightarrow> factory" where
  "lambda_of p I T =
     (if is_default_constructible p T then Default_ctor I T
      else Tuple_ctor I T (as_tuple_t p T))"


text \<open>
  Between calls no registry is being initialised, the lambdas were stored by \<open>add\<close> of
  this program, and finitely many registries hold one.
\<close>

definition quiescent :: "di_state \<Rightarrow> bool" where
  "quiescent s \<longleftrightarrow> (\<forall>T. flag s T \<noteq> Active)"

definition stored_by :: "program \<Rightarrow> di_state \<Rightarrow> bool" where
  "stored_by p s \<longleftrightarrow> (\<forall>I f. constructor s I = Some f \<longrightarrow> (\<exists>T. f = lambda_of p I T))"

definition consistent :: "program \<Rightarrow> di_state \<Rightarrow> bool" where
  "consistent p s \<longleftrightarrow>
     realized_ok s \<and> quiescent s \<and> stored_by p s \<and> finite (dom (constructor s))"

text \<open>The instantiations of \<open>add\<close> whose lambda resolves handles only.\<close>

fun call_built :: "program \<Rightarrow> call \<Rightarrow> bool" where
  "call_built p (Add I T) \<longleftrightarrow> is_default_constructible p T \<or> list_all is_shared_ptr (as_tuple_t p T)"
| "call_built p (Add_self T) \<longleftrightarrow> is_default_constructible p T \<or> list_all is_shared_ptr (as_tuple_t p T)"
| "call_built p (Get T) \<longleftrightarrow> True"

text \<open>The first component of a returned value, changed by a function.\<close>

definition map_returned :: "('a \<Rightarrow> 'b) \<Rightarrow> 'a outcome \<Rightarrow> 'b outcome" where
  "map_returned g r =
     (case r of
        Returned a s' \<Rightarrow> Returned (g a) s'
      | Thrown e s' \<Rightarrow> Thrown e s'
      | Blocked \<Rightarrow> Blocked
      | Ill_formed e \<Rightarrow> Ill_formed e
      | Out_of_fuel \<Rightarrow> Out_of_fuel)"

text \<open>
  The dependencies between the types that hold a lambda: \<open>T\<close> depends on the element
  types its lambda resolves. A cyclic dependency of \<open>T\<close> is a type that \<open>T\<close> reaches and
  that reaches itself.
\<close>

definition dep_rel :: "di_state \<Rightarrow> (ctype \<times> ctype) set" where
  "dep_rel s = {(T, E). \<exists>f. constructor s T = Some f \<and> E \<in> set (deps_of f)}"

definition cyclic_from :: "di_state \<Rightarrow> ctype \<Rightarrow> bool" where
  "cyclic_from s T \<longleftrightarrow> (\<exists>U. (T, U) \<in> (dep_rel s)\<^sup>* \<and> (U, U) \<in> (dep_rel s)\<^sup>+)"

text \<open>The value and the state of a call that returned.\<close>

definition value_of :: "'a outcome \<Rightarrow> 'a option" where
  "value_of r = (case r of Returned a s' \<Rightarrow> Some a | _ \<Rightarrow> None)"



section \<open>Properties of signature discovery\<close>

lemma to_int_sizeof_pack:
  assumes "length Ns < 2 ^ 31"
  shows "sizeof_pack_int Ns = int (length Ns)"
proof -
  have "int (length Ns) < 2 ^ 31" using assms by (simp add: of_nat_less_numeral_power_cancel_iff)
  then show ?thesis by (simp add: to_int_def sizeof_pack_def sizeof_pack_int_def sizeof_pack_minus_1_def Let_def)
qed


lemma fields_number_ctor_upt:
  assumes "k + depth < 2 ^ 31"
  shows "fields_number_ctor di depth [0..<k] =
     (if \<exists>n. k \<le> n \<and> n \<le> k + depth \<and> di [0..<n]
      then Some (int (LEAST n. k \<le> n \<and> di [0..<n])) else None)"
  using assms
proof (induction depth arbitrary: k)
  case 0
  then show ?case
    by (auto simp: to_int_sizeof_pack intro!: Least_equality[symmetric])
next
  case (Suc depth)
  show ?case
  proof (cases "di [0..<k]")
    case True
    have "(LEAST n. k \<le> n \<and> di [0..<n]) = k"
      using True by (auto intro!: Least_equality)
    moreover have "\<exists>n\<ge>k. n \<le> k + Suc depth \<and> di [0..<n]" using True by auto
    ultimately show ?thesis using True Suc.prems by (simp add: to_int_sizeof_pack)
  next
    case False
    have eq: "\<And>n. (k \<le> n \<and> di [0..<n]) = (Suc k \<le> n \<and> di [0..<n])"
      using False by (metis Suc_leI le_neq_implies_less Suc_leD)
    have ex: "(\<exists>n\<ge>k. n \<le> k + Suc depth \<and> di [0..<n]) = (\<exists>n\<ge>Suc k. n \<le> Suc k + depth \<and> di [0..<n])"
      using eq by auto
    have "fields_number_ctor di (Suc depth) [0..<k] = fields_number_ctor di depth [0..<Suc k]"
      using False by simp
    also have "\<dots> = (if \<exists>n\<ge>Suc k. n \<le> Suc k + depth \<and> di [0..<n]
      then Some (int (LEAST n. Suc k \<le> n \<and> di [0..<n])) else None)"
      using Suc.IH[of "Suc k"] Suc.prems by simp
    finally show ?thesis unfolding ex eq .
  qed
qed



lemma fields_number_ctor_first:
  assumes "depth < 2 ^ 31"
  shows "fields_number_ctor di depth [] =
     (if \<exists>n\<le>depth. di [0..<n] then Some (int (LEAST n. di [0..<n])) else None)"
  using fields_number_ctor_upt[of 0 depth di] assms by simp


lemma Least_agree:
  fixes P Q :: "nat \<Rightarrow> bool"
  assumes "P n" "\<forall>m<n. \<not> P m" "\<forall>m\<le>n. Q m = P m"
  shows "(LEAST m. Q m) = n"
  using assms by (intro Least_equality) (auto simp: not_less[symmetric])

text \<open>
  C6. Constructor-arity probing returns the smallest probe count for which direct
  construction from that many probes is well formed (or the build fails when there is
  none within the depth limit). It stops at the first success: the result does not depend
  on whether construction from more probes is well formed.
\<close>

theorem fields_number_ctor_smallest_success:
  assumes "depth < 2 ^ 31"
  shows "fields_number_ctor di depth [] =
           (if \<exists>n\<le>depth. di [0..<n] then Some (int (LEAST n. di [0..<n])) else None)
       \<and> (\<forall>r. fields_number_ctor di depth [] = Some r \<longrightarrow>
            (\<exists>n\<le>depth. r = int n \<and> di [0..<n] \<and> (\<forall>m<n. \<not> di [0..<m]) \<and>
               (\<forall>di'. (\<forall>m\<le>n. di' [0..<m] = di [0..<m]) \<longrightarrow>
                  fields_number_ctor di' depth [] = Some r)))"
proof (intro conjI allI impI)
  show "fields_number_ctor di depth [] =
           (if \<exists>n\<le>depth. di [0..<n] then Some (int (LEAST n. di [0..<n])) else None)"
    by (rule fields_number_ctor_first[OF assms])
next
  fix r assume r: "fields_number_ctor di depth [] = Some r"
  define n where "n = (LEAST n. di [0..<n])"
  from r have ex: "\<exists>k\<le>depth. di [0..<k]" and rn: "r = int n"
    unfolding n_def fields_number_ctor_first[OF assms] by (auto split: if_splits)
  then obtain k where k: "k \<le> depth" "di [0..<k]" by blast
  have dn: "di [0..<n]" unfolding n_def using k(2) by (rule LeastI)
  have nk: "n \<le> k" unfolding n_def using k(2) by (rule Least_le)
  have least: "\<forall>m<n. \<not> di [0..<m]" unfolding n_def using not_less_Least by blast
  have indep: "fields_number_ctor di' depth [] = Some r"
    if agree: "\<forall>m\<le>n. di' [0..<m] = di [0..<m]" for di'
  proof -
    have "(LEAST m. di' [0..<m]) = n"
      using Least_agree[of "\<lambda>m. di [0..<m]" n "\<lambda>m. di' [0..<m]"] dn least agree by simp
    moreover have "\<exists>k\<le>depth. di' [0..<k]" using agree dn nk k(1) by (intro exI[of _ n]) auto
    ultimately show ?thesis unfolding fields_number_ctor_first[OF assms] rn by simp
  qed
  show "\<exists>n\<le>depth. r = int n \<and> di [0..<n] \<and> (\<forall>m<n. \<not> di [0..<m]) \<and>
               (\<forall>di'. (\<forall>m\<le>n. di' [0..<m] = di [0..<m]) \<longrightarrow>
                  fields_number_ctor di' depth [] = Some r)"
    using rn dn least indep nk k(1) by (intro exI[of _ n]) auto
qed

theorem fields_number_ctor_smallest_success_witness:
  "(3::nat) < 2 ^ 31 \<and> fields_number_ctor one_or_two_ctor 3 [] = Some 1
     \<and> one_or_two_ctor [0..<1] \<and> \<not> one_or_two_ctor [0..<0]
     \<and> fields_number_ctor one_ctor 3 [] = Some 1"
proof -
  have d: "(3::nat) < 2 ^ 31" by simp
  have r: "fields_number_ctor one_or_two_ctor 3 [] = Some 1"
    by (simp add: one_or_two_ctor_def numeral_3_eq_3 sizeof_pack_int_def sizeof_pack_def to_int_def)
  from fields_number_ctor_smallest_success[OF d, of one_or_two_ctor] r
  obtain n where n: "(1::int) = int n" "one_or_two_ctor [0..<n]"
    "\<forall>m<n. \<not> one_or_two_ctor [0..<m]"
    "\<forall>di'. (\<forall>m\<le>n. di' [0..<m] = one_or_two_ctor [0..<m]) \<longrightarrow>
        fields_number_ctor di' 3 [] = Some 1"
    by blast
  from n(1) have n1: "n = 1" by simp
  have "\<forall>m\<le>1. one_ctor [0..<m] = one_or_two_ctor [0..<m]"
    by (auto simp: one_ctor_def one_or_two_ctor_def)
  then have "fields_number_ctor one_ctor 3 [] = Some 1" using n(4) n1 by blast
  then show ?thesis using d r n n1 by simp
qed

lemma loophole_tuple_Inr:
  "loophole_tuple tbl T Ns = Inr Us \<Longrightarrow> map (\<lambda>N. tbl (T, N)) Ns = map Some Us"
  by (induction Ns arbitrary: Us) (auto split: option.splits sum.splits)

lemma as_tuple_Inr:
  assumes "as_tuple cl tbl T = Inr Us"
  shows "\<exists>N. fields_number_ctor (direct_init cl T) (depth_limit cl) [] = Some (int N)
           \<and> length Us = N \<and> (\<forall>i<N. tbl (T, i) = Some (Us ! i))"
proof -
  from assms obtain r Ns where r: "fields_number_ctor (direct_init cl T) (depth_limit cl) [] = Some r"
    and Ns: "make_integer_sequence r = Some Ns" and lt: "loophole_tuple tbl T Ns = Inr Us"
    by (auto simp: as_tuple_def split: option.splits)
  from Ns have r0: "0 \<le> r" and NsE: "Ns = [0..<nat r]"
    by (auto simp: make_integer_sequence_def split: if_splits)
  have m: "map (\<lambda>N. tbl (T, N)) [0..<nat r] = map Some Us"
    using loophole_tuple_Inr[OF lt] NsE by simp
  then have len: "length Us = nat r" by (metis length_map length_upt minus_nat.diff_0)
  have "\<forall>i<nat r. tbl (T, i) = Some (Us ! i)"
  proof (intro allI impI)
    fix i assume i: "i < nat r"
    have "map (\<lambda>N. tbl (T, N)) [0..<nat r] ! i = map Some Us ! i" using m by simp
    then show "tbl (T, i) = Some (Us ! i)" using i len by simp
  qed
  then show ?thesis using r r0 len by (intro exI[of _ "nat r"]) auto
qed

lemma c_op_convert_disabled:
  "remove_cv (remove_reference U) = remove_cv (remove_reference T) \<Longrightarrow> c_op_convert T N U tbl = None"
  by (simp add: c_op_convert_def fn_def_def fn_def_enabled_def)

lemma c_op_convert_recorded_ok:
  "recorded_ok tbl \<Longrightarrow> c_op_convert T N U tbl = Some tbl' \<Longrightarrow> recorded_ok tbl'"
  unfolding recorded_ok_def c_op_convert_def fn_def_def
  by (auto split: if_splits)

lemma conversions_recorded_ok:
  "recorded_ok tbl \<Longrightarrow> recorded_ok (conversions rs tbl)"
proof (induction rs arbitrary: tbl)
  case Nil then show ?case by simp
next
  case (Cons r rs)
  obtain T N U where r: "r = (T, N, U)" by (cases r)
  show ?case
  proof (cases "c_op_convert T N U tbl")
    case None then show ?thesis using Cons r by simp
  next
    case (Some tbl')
    then show ?thesis using Cons r c_op_convert_recorded_ok[OF Cons.prems Some] by simp
  qed
qed

lemma recorded_ok_empty: "recorded_ok Map.empty"
  by (simp add: recorded_ok_def)

lemma decayed_not_self:
  assumes "remove_reference T = T" "remove_cv T = T" "fn_def_enabled T U"
  shows "remove_cv (remove_reference U) \<noteq> T"
  using assms by (auto simp: fn_def_enabled_def)

text \<open>
  C9. For a class \<open>T\<close>, a probe \<open>c_op<T, N>\<close> has no conversion to \<open>T\<close> itself, whatever
  the cv-qualifiers and references on the target (in particular not to the parameter of
  the copy or of the move constructor of \<open>T\<close>), and a tuple type read back by \<open>as_tuple\<close>
  from the friends that conversions have defined never contains \<open>T\<close>.
\<close>

theorem probe_never_converts_to_own_class:
  assumes "remove_reference T = T" and "remove_cv T = T"
  shows "(\<forall>N U tbl. remove_cv (remove_reference U) = T \<longrightarrow> c_op_convert T N U tbl = None)
       \<and> c_op_convert T N (LRef (Const T)) tbl = None
       \<and> c_op_convert T N (RRef T) tbl = None
       \<and> (\<forall>rs cl Us. as_tuple cl (conversions rs Map.empty) T = Inr Us \<longrightarrow> T \<notin> set Us)"
proof (intro conjI allI impI)
  fix N U tbl assume "remove_cv (remove_reference U) = T"
  then show "c_op_convert T N U tbl = None" using assms by (simp add: c_op_convert_disabled)
next
  show "c_op_convert T N (LRef (Const T)) tbl = None" using assms by (simp add: c_op_convert_disabled)
  show "c_op_convert T N (RRef T) tbl = None" using assms by (simp add: c_op_convert_disabled)
next
  fix rs cl Us assume a: "as_tuple cl (conversions rs Map.empty) T = Inr Us"
  let ?tbl = "conversions rs Map.empty"
  have ok: "recorded_ok ?tbl" by (rule conversions_recorded_ok[OF recorded_ok_empty])
  from as_tuple_Inr[OF a] have all: "\<forall>i<length Us. ?tbl (T, i) = Some (Us ! i)" by auto
  show "T \<notin> set Us"
  proof
    assume "T \<in> set Us"
    then obtain i where i: "i < length Us" "Us ! i = T" by (auto simp: in_set_conv_nth)
    then have "?tbl (T, i) = Some T" using all by auto
    then obtain U where "T = remove_cv (remove_reference U)" "fn_def_enabled T U"
      using ok unfolding recorded_ok_def by blast
    then show False using decayed_not_self[OF assms] by auto
  qed
qed

lemma demo_names_distinct:
  "Service \<noteq> ILogger" "Service \<noteq> ISink" "Service \<noteq> FileLogger"
  "Service \<noteq> ConsoleLogger" "Service \<noteq> Counter" "Service \<noteq> IService"
  "Service \<noteq> IRunner" "Service \<noteq> MockService" "Service \<noteq> Duo"
  "ILogger \<noteq> Service" "ILogger \<noteq> ISink" "ILogger \<noteq> FileLogger"
  "ILogger \<noteq> ConsoleLogger" "ILogger \<noteq> Counter" "ILogger \<noteq> IService"
  "ILogger \<noteq> IRunner" "ILogger \<noteq> MockService" "ILogger \<noteq> Duo"
  "ISink \<noteq> Service" "ISink \<noteq> ILogger" "ISink \<noteq> FileLogger"
  "ISink \<noteq> ConsoleLogger" "ISink \<noteq> Counter" "ISink \<noteq> IService"
  "ISink \<noteq> IRunner" "ISink \<noteq> MockService" "ISink \<noteq> Duo"
  "FileLogger \<noteq> Service" "FileLogger \<noteq> ILogger" "FileLogger \<noteq> ISink"
  "FileLogger \<noteq> ConsoleLogger" "FileLogger \<noteq> Counter" "FileLogger \<noteq> IService"
  "FileLogger \<noteq> IRunner" "FileLogger \<noteq> MockService" "FileLogger \<noteq> Duo"
  "ConsoleLogger \<noteq> Service" "ConsoleLogger \<noteq> ILogger" "ConsoleLogger \<noteq> ISink"
  "ConsoleLogger \<noteq> FileLogger" "ConsoleLogger \<noteq> Counter" "ConsoleLogger \<noteq> IService"
  "ConsoleLogger \<noteq> IRunner" "ConsoleLogger \<noteq> MockService" "ConsoleLogger \<noteq> Duo"
  "Counter \<noteq> Service" "Counter \<noteq> ILogger" "Counter \<noteq> ISink"
  "Counter \<noteq> FileLogger" "Counter \<noteq> ConsoleLogger" "Counter \<noteq> IService"
  "Counter \<noteq> IRunner" "Counter \<noteq> MockService" "Counter \<noteq> Duo"
  "IService \<noteq> Service" "IService \<noteq> ILogger" "IService \<noteq> ISink"
  "IService \<noteq> FileLogger" "IService \<noteq> ConsoleLogger" "IService \<noteq> Counter"
  "IService \<noteq> IRunner" "IService \<noteq> MockService" "IService \<noteq> Duo"
  "IRunner \<noteq> Service" "IRunner \<noteq> ILogger" "IRunner \<noteq> ISink"
  "IRunner \<noteq> FileLogger" "IRunner \<noteq> ConsoleLogger" "IRunner \<noteq> Counter"
  "IRunner \<noteq> IService" "IRunner \<noteq> MockService" "IRunner \<noteq> Duo"
  "MockService \<noteq> Service" "MockService \<noteq> ILogger" "MockService \<noteq> ISink"
  "MockService \<noteq> FileLogger" "MockService \<noteq> ConsoleLogger" "MockService \<noteq> Counter"
  "MockService \<noteq> IService" "MockService \<noteq> IRunner" "MockService \<noteq> Duo"
  "Duo \<noteq> Service" "Duo \<noteq> ILogger" "Duo \<noteq> ISink"
  "Duo \<noteq> FileLogger" "Duo \<noteq> ConsoleLogger" "Duo \<noteq> Counter"
  "Duo \<noteq> IService" "Duo \<noteq> IRunner" "Duo \<noteq> MockService"
  by (simp_all add: Service_def ILogger_def ISink_def FileLogger_def ConsoleLogger_def Counter_def IService_def IRunner_def MockService_def Duo_def)

lemma demo_loopholes_eq:
  "demo_loopholes = [(Service, 0) \<mapsto> Shared_ptr ILogger, (Counter, 0) \<mapsto> Named ''int'',
                     (Duo, 0) \<mapsto> Shared_ptr ILogger, (Duo, 1) \<mapsto> Shared_ptr ISink]"
  by (simp add: demo_loopholes_def c_op_convert_def fn_def_def fn_def_enabled_def ins_is_char_def
      Service_def ILogger_def Counter_def Duo_def ISink_def)

lemma as_tuple_demo_Counter: "as_tuple demo_classes demo_loopholes Counter = Inr [Named ''int'']"
  by (simp add: as_tuple_def demo_classes_def demo_loopholes_eq numeral_3_eq_3 demo_names_distinct
      sizeof_pack_int_def sizeof_pack_def to_int_def make_integer_sequence_def)

lemma as_tuple_demo_Service: "as_tuple demo_classes demo_loopholes Service = Inr [Shared_ptr ILogger]"
  by (simp add: as_tuple_def demo_classes_def demo_loopholes_eq numeral_3_eq_3 demo_names_distinct
      demo_names_distinct[symmetric]
      sizeof_pack_int_def sizeof_pack_def to_int_def make_integer_sequence_def)

theorem probe_never_converts_to_own_class_witness:
  "remove_reference Service = Service \<and> remove_cv Service = Service
     \<and> c_op_convert Service 0 (LRef (Const Service)) Map.empty = None
     \<and> c_op_convert Service 0 (RRef Service) Map.empty = None
     \<and> as_tuple demo_classes demo_loopholes Service = Inr [Shared_ptr ILogger]
     \<and> Service \<notin> set [Shared_ptr ILogger]"
proof -
  have r: "remove_reference Service = Service" and c: "remove_cv Service = Service"
    by (simp_all add: Service_def)
  note th = probe_never_converts_to_own_class[OF r c, of 0 Map.empty]
  have "Service \<notin> set [Shared_ptr ILogger]"
    using th as_tuple_demo_Service unfolding demo_loopholes_def by blast
  then show ?thesis using r c th as_tuple_demo_Service by blast
qed


section \<open>Properties of the ledger and the build\<close>

lemma inst_ledger: "inst cl tbl c L = Inr L' \<Longrightarrow> L' = L \<union> marks c"
  by (cases c) (auto simp: inst_add_def inst_add_self_def inst_get_def set_type_def check_type_def
      split: if_splits sum.splits list.splits)

lemma build_ledger: "build cl tbl cs L = Inr L' \<Longrightarrow> L' = L \<union> (\<Union>c\<in>set cs. marks c)"
proof (induction cs arbitrary: L)
  case Nil then show ?case by simp
next
  case (Cons c cs)
  then obtain L1 where 1: "inst cl tbl c L = Inr L1" and 2: "build cl tbl cs L1 = Inr L'"
    by (auto split: sum.splits)
  show ?case using inst_ledger[OF 1] Cons.IH[OF 2] by auto
qed

lemma build_append:
  "build cl tbl (cs1 @ cs2) L =
     (case build cl tbl cs1 L of Inl e \<Rightarrow> Inl e | Inr L' \<Rightarrow> build cl tbl cs2 L')"
  by (induction cs1 arbitrary: L) (auto split: sum.splits)

text \<open>
  C4. A translation unit that instantiates \<open>get<T>\<close> builds only if some instantiation of
  \<open>add\<close> marks \<open>T\<close>; when no instantiation before \<open>get<T>\<close> marks \<open>T\<close> the build fails
  there, with the error that names \<open>T\<close>; so a \<open>T\<close> that is never added fails the build, and
  no program exists that could fail at run time.
\<close>

theorem get_needs_ledger_mark:
  "(build cl tbl cs {} = Inr L \<and> Get T \<in> set cs \<longrightarrow> (\<exists>c\<in>set cs. T \<in> marks c))
   \<and> (build cl tbl cs1 {} = Inr L1 \<and> (\<forall>c\<in>set cs1. T \<notin> marks c) \<longrightarrow>
        build cl tbl (cs1 @ Get T # cs2) {} = Inl (Not_detected_in_di_container T))
   \<and> ((\<forall>c\<in>set cs. T \<notin> marks c) \<and> Get T \<in> set cs \<longrightarrow> (\<exists>e. build cl tbl cs {} = Inl e))"
proof -
  have A: "\<exists>c\<in>set cs. T \<in> marks c" if b: "build cl tbl cs {} = Inr L" and g: "Get T \<in> set cs" for cs L
  proof -
    from g obtain xs ys where cs: "cs = xs @ Get T # ys" by (meson split_list)
    from b obtain Lx where x: "build cl tbl xs {} = Inr Lx" and y: "build cl tbl (Get T # ys) Lx = Inr L"
      unfolding cs build_append by (auto split: sum.splits)
    from y have "T \<in> Lx" by (auto simp: inst_get_def check_type_def split: if_splits sum.splits)
    then have "\<exists>c\<in>set xs. T \<in> marks c" using build_ledger[OF x] by auto
    then show ?thesis unfolding cs by auto
  qed
  have B: "build cl tbl (cs1 @ Get T # cs2) {} = Inl (Not_detected_in_di_container T)"
    if b: "build cl tbl cs1 {} = Inr L1" and n: "\<forall>c\<in>set cs1. T \<notin> marks c"
  proof -
    have "T \<notin> L1" using build_ledger[OF b] n by auto
    then show ?thesis unfolding build_append using b by (simp add: inst_get_def check_type_def)
  qed
  have C: "\<exists>e. build cl tbl cs {} = Inl e" if n: "\<forall>c\<in>set cs. T \<notin> marks c" and g: "Get T \<in> set cs"
  proof (cases "build cl tbl cs {}")
    case (Inl e) then show ?thesis by blast
  next
    case (Inr L') from A[OF Inr g] n show ?thesis by blast
  qed
  show ?thesis using A B C by blast
qed

lemma demo_classes_simps:
  "default_constructible demo_classes T \<longleftrightarrow>
     T = FileLogger \<or> T = ConsoleLogger \<or> T = MockService \<or> T = Duo"
  "base_of demo_classes I T \<longleftrightarrow>
     (I = ILogger \<and> (T = FileLogger \<or> T = ConsoleLogger)) \<or> (I = ISink \<and> T = FileLogger)
     \<or> ((I = IService \<or> I = IRunner) \<and> (T = Service \<or> T = MockService))
     \<or> (I = Service \<and> T = MockService)"
  "depth_limit demo_classes = 3"
  by (simp_all add: demo_classes_def)

lemma build_demo_Service: "build demo_classes demo_loopholes [Add_self Service] {} = Inr {Service}"
  by (simp add: inst_add_self_def inst_add_def as_tuple_demo_Service inst_construct_tuple_def
      inst_construct_tuple_assign_def set_type_def demo_classes_simps demo_names_distinct)

theorem get_needs_ledger_mark_witness:
  "build demo_classes demo_loopholes [Add_self Service] {} = Inr {Service}
     \<and> ILogger \<notin> marks (Add_self Service)
     \<and> build demo_classes demo_loopholes ([Add_self Service] @ Get ILogger # [Get Service]) {}
          = Inl (Not_detected_in_di_container ILogger)
     \<and> build demo_classes demo_loopholes [Add_self Service, Get Service] {} = Inr {Service}
     \<and> Service \<in> marks (Add_self Service)"
proof -
  have n: "\<forall>c\<in>set [Add_self Service]. ILogger \<notin> marks c"
    using demo_names_distinct by simp
  have b2: "build demo_classes demo_loopholes [Add_self Service, Get Service] {} = Inr {Service}"
    using build_demo_Service by (auto simp: inst_get_def check_type_def split: sum.splits)
  from get_needs_ledger_mark[where cl = demo_classes and tbl = demo_loopholes
      and ?cs1.0 = "[Add_self Service]" and ?L1.0 = "{Service}" and T = ILogger
      and ?cs2.0 = "[Get Service]"]
  have 1: "build demo_classes demo_loopholes ([Add_self Service] @ Get ILogger # [Get Service]) {}
          = Inl (Not_detected_in_di_container ILogger)"
    using build_demo_Service n by blast
  then show ?thesis using build_demo_Service n b2 by simp
qed


lemma concat_fail:
  "concat (map (\<lambda>P. if is_shared_ptr P then [] else [Fail_type B P]) sig)
     = map (Fail_type B) (filter (\<lambda>P. \<not> is_shared_ptr P) sig)"
  by (induction sig) auto

lemma inst_construct_tuple_eq:
  "inst_construct_tuple B 0 (length sig) sig = map (Fail_type B) (filter (\<lambda>P. \<not> is_shared_ptr P) sig)"
proof -
  have "map (\<lambda>N. inst_construct_tuple_assign B N sig) [0..<length sig]
        = map (\<lambda>N. (\<lambda>P. if is_shared_ptr P then [] else [Fail_type B P]) (sig ! N)) [0..<length sig]"
    by (simp add: inst_construct_tuple_assign_def)
  also have "\<dots> = map (\<lambda>P. if is_shared_ptr P then [] else [Fail_type B P]) (map (\<lambda>N. sig ! N) [0..<length sig])"
    by (simp only: map_map o_def)
  also have "\<dots> = map (\<lambda>P. if is_shared_ptr P then [] else [Fail_type B P]) sig"
    by (simp only: map_nth)
  finally show ?thesis unfolding inst_construct_tuple_def by (simp add: concat_fail)
qed


section \<open>Properties of the registry\<close>

declare registry_get.simps [simp del] construct_tuple_assign.simps [simp del]

lemma frame_refl: "frame s s"
  by (auto simp: frame_def)

lemma frame_heap_le: "frame s s' \<Longrightarrow> length (heap s) \<le> length (heap s')"
  by (auto simp: frame_def)

lemma frame_trans:
  assumes 1: "frame s s'" and 2: "frame s' s''"
  shows "frame s s''"
proof -
  have le: "length (heap s) \<le> length (heap s')" by (rule frame_heap_le[OF 1])
  have fresh: "length (heap s) \<le> a"
    if "flag s U \<noteq> Done" "flag s'' U = Done" "obj s'' U = Some a" for U a
  proof (cases "flag s' U = Done")
    case True
    then have "obj s'' U = obj s' U" using 2 by (simp add: frame_def)
    then show ?thesis using 1 that True by (simp add: frame_def)
  next
    case False
    then have "length (heap s') \<le> a" using 2 that unfolding frame_def by blast
    then show ?thesis using le by simp
  qed
  have rest: "constructor s'' = constructor s \<and> (\<exists>new. heap s'' = heap s @ new)
     \<and> (\<forall>U. flag s U = Done \<longrightarrow> flag s'' U = Done \<and> obj s'' U = obj s U)
     \<and> (\<forall>U. flag s'' U = Active \<longleftrightarrow> flag s U = Active)"
    using 1 2 unfolding frame_def by (elim conjE exE, intro conjI) auto
  show ?thesis unfolding frame_def using rest fresh by blast
qed

lemma frame_make_shared: "make_shared T as s = (h, s') \<Longrightarrow> frame s s'"
  by (auto simp: make_shared_def frame_def)

lemma built_make_shared:
  "frame s s' \<Longrightarrow> make_shared T as s' = (h, s'') \<Longrightarrow> impl_of f = T \<Longrightarrow> built f s h s''"
  by (auto simp: make_shared_def built_def dest: frame_heap_le)

lemma frame_call_once_returned:
  assumes "flag s T = Idle" and f: "frame (s\<lparr>flag := (flag s)(T := Active)\<rparr>) s'"
    and "\<forall>a. h = Some a \<longrightarrow> length (heap s) \<le> a"
  shows "frame s (s'\<lparr>obj := (obj s')(T := h), flag := (flag s')(T := Done)\<rparr>)"
  using assms unfolding frame_def by (elim conjE exE, intro conjI) (auto split: if_splits)

lemma frame_call_once_thrown:
  "flag s T = Idle \<Longrightarrow> frame (s\<lparr>flag := (flag s)(T := Active)\<rparr>) s' \<Longrightarrow>
     frame s (s'\<lparr>flag := (flag s')(T := Idle)\<rparr>)"
  unfolding frame_def by (elim conjE exE, intro conjI) (auto split: if_splits)

lemma post_frame:
  shows "post frame s (registry_get fuel T s)"
    and "post frame s (invoke fuel f s) \<and> (\<forall>h s'. invoke fuel f s = Returned h s' \<longrightarrow> built f s h s')"
    and "post frame s (construct_tuple_assign fuel B N tt tu s)"
    and "post frame s (construct_tuple fuel B tt ixs tu s)"
proof (induction fuel T s and fuel f s and fuel B N tt tu s and fuel B tt ixs tu s
    rule: registry_get_invoke_construct_tuple_assign_construct_tuple.induct)
  case (1 fuel T s)
  show ?case
  proof (cases "flag s T")
    case Idle
    show ?thesis
    proof (cases fuel)
      case 0 then show ?thesis using Idle by (simp add: registry_get.simps post_def)
    next
      case (Suc n)
      show ?thesis
      proof (cases "constructor s T")
        case None then show ?thesis using Idle Suc by (simp add: registry_get.simps post_def frame_refl)
      next
        case (Some f)
        let ?s1 = "s\<lparr>flag := (flag s)(T := Active)\<rparr>"
        note IH = 1[OF Idle Suc Some]
        show ?thesis
        proof (cases "invoke n f ?s1")
          case (Returned h s')
          then have fr: "frame ?s1 s'" and b: "built f ?s1 h s'" using IH by (auto simp: post_def)
          from b have "\<forall>a. h = Some a \<longrightarrow> length (heap s) \<le> a" by (auto simp: built_def)
          from frame_call_once_returned[OF Idle fr this] show ?thesis
            using Idle Suc Some Returned by (simp add: registry_get.simps post_def)
        next
          case (Thrown e s')
          then have fr: "frame ?s1 s'" using IH by (auto simp: post_def)
          from frame_call_once_thrown[OF Idle fr] show ?thesis
            using Idle Suc Some Thrown by (simp add: registry_get.simps post_def)
        qed (use Idle Suc Some in \<open>simp_all add: registry_get.simps post_def\<close>)
      qed
    qed
  next
    case Active then show ?thesis by (simp add: registry_get.simps post_def)
  next
    case Done then show ?thesis by (simp add: registry_get.simps post_def frame_refl)
  qed
next
  case (2 fuel I T s)
  then show ?case
    by (auto simp: post_def frame_make_shared static_pointer_cast_def
        intro: built_make_shared[OF frame_refl] split: prod.splits)
next
  case (3 fuel I T ctr_type s)
  show ?case
  proof (cases "construct_tuple fuel T ctr_type [0..<length ctr_type - 0] (replicate (length ctr_type) None) s")
    case (Returned tuple s')
    then have fr: "frame s s'" using 3 by (simp add: post_def)
    obtain h s'' where ms: "make_shared T tuple s' = (h, s'')" by (cases "make_shared T tuple s'")
    have "frame s s''" using fr frame_make_shared[OF ms] by (rule frame_trans)
    moreover have "built (Tuple_ctor I T ctr_type) s h s''"
      using built_make_shared[OF fr ms] by simp
    ultimately show ?thesis using Returned ms
      by (auto simp: post_def static_pointer_cast_def built_def)
  qed (use 3 in \<open>simp_all add: post_def\<close>)
next
  case (4 fuel BASE_T N TUPLE_T tuple s)
  then show ?case
    by (auto simp: construct_tuple_assign.simps post_def split: outcome.splits option.splits)
next
  case (5 fuel BASE_T TUPLE_T tuple s)
  then show ?case by (simp add: post_def frame_refl)
next
  case (6 fuel BASE_T TUPLE_T N indices tuple s)
  then show ?case
    by (auto simp: post_def split: outcome.splits intro: frame_trans)
qed

lemma registry_get_Returned:
  "registry_get fuel T s = Returned h s' \<Longrightarrow> flag s' T = Done \<and> obj s' T = h"
  by (auto simp: registry_get.simps split: once_flag.splits nat.splits option.splits outcome.splits)


lemma registry_get_frame:
  "registry_get fuel T s = Returned h s' \<Longrightarrow> frame s s'"
  "registry_get fuel T s = Thrown e s' \<Longrightarrow> frame s s'"
  using post_frame(1)[of s fuel T] by (simp_all add: post_def)

lemma invoke_frame:
  "invoke fuel f s = Returned h s' \<Longrightarrow> frame s s'"
  "invoke fuel f s = Thrown e s' \<Longrightarrow> frame s s'"
  "invoke fuel f s = Returned h s' \<Longrightarrow> built f s h s'"
  using post_frame(2)[of s fuel f] by (simp_all add: post_def)

lemma construct_tuple_assign_frame:
  "construct_tuple_assign fuel B N tt tu s = Returned tu' s' \<Longrightarrow> frame s s'"
  "construct_tuple_assign fuel B N tt tu s = Thrown e s' \<Longrightarrow> frame s s'"
  using post_frame(3)[of s fuel B N tt tu] by (simp_all add: post_def)

lemma construct_tuple_frame:
  "construct_tuple fuel B tt ixs tu s = Returned tu' s' \<Longrightarrow> frame s s'"
  "construct_tuple fuel B tt ixs tu s = Thrown e s' \<Longrightarrow> frame s s'"
  using post_frame(4)[of s fuel B tt ixs tu] by (simp_all add: post_def)


lemma realized_ok_make_shared:
  "realized_ok s \<Longrightarrow> make_shared T as s = (h, s') \<Longrightarrow> realized_ok s'"
  unfolding realized_ok_def make_shared_def
  by (auto simp: nth_append)

lemma realized_ok_active:
  "realized_ok s \<Longrightarrow> flag s T = Idle \<Longrightarrow> realized_ok (s\<lparr>flag := (flag s)(T := Active)\<rparr>)"
  unfolding realized_ok_def by auto

lemma realized_ok_idle:
  "realized_ok s \<Longrightarrow> realized_ok (s\<lparr>flag := (flag s)(T := Idle)\<rparr>)"
  unfolding realized_ok_def by auto

lemma realized_ok_done:
  assumes ok: "realized_ok s'" and c: "constructor s' T = Some f"
    and b: "h = Some a" "a < length (heap s')" "cls (heap s' ! a) = impl_of f"
    and fresh: "\<forall>U. flag s' U = Done \<longrightarrow> obj s' U \<noteq> h"
  shows "realized_ok (s'\<lparr>obj := (obj s')(T := h), flag := (flag s')(T := Done)\<rparr>)"
  using assms unfolding realized_ok_def
  by (intro conjI allI impI) (auto split: if_splits)


lemma fresh_make_shared:
  "realized_ok s \<Longrightarrow> make_shared T as s = (h, s') \<Longrightarrow> \<forall>U. flag s' U = Done \<longrightarrow> obj s' U \<noteq> h"
  unfolding realized_ok_def make_shared_def by fastforce

lemma post_realized_ok:
  shows "realized_ok s \<Longrightarrow> post (\<lambda>_. realized_ok) s (registry_get fuel T s)"
    and "realized_ok s \<Longrightarrow> post (\<lambda>_. realized_ok) s (invoke fuel f s)
           \<and> (\<forall>h s'. invoke fuel f s = Returned h s' \<longrightarrow> (\<forall>U. flag s' U = Done \<longrightarrow> obj s' U \<noteq> h))"
    and "realized_ok s \<Longrightarrow> post (\<lambda>_. realized_ok) s (construct_tuple_assign fuel B N tt tu s)"
    and "realized_ok s \<Longrightarrow> post (\<lambda>_. realized_ok) s (construct_tuple fuel B tt ixs tu s)"
proof (induction fuel T s and fuel f s and fuel B N tt tu s and fuel B tt ixs tu s
    rule: registry_get_invoke_construct_tuple_assign_construct_tuple.induct)
  case (1 fuel T s)
  show ?case
  proof (cases "flag s T")
    case Idle
    show ?thesis
    proof (cases fuel)
      case 0 then show ?thesis using Idle by (simp add: registry_get.simps post_def)
    next
      case (Suc n)
      show ?thesis
      proof (cases "constructor s T")
        case None then show ?thesis using Idle Suc 1(2) by (simp add: registry_get.simps post_def)
      next
        case (Some f)
        let ?s1 = "s\<lparr>flag := (flag s)(T := Active)\<rparr>"
        note IH = 1(1)[OF Idle Suc Some realized_ok_active[OF 1(2) Idle]]
        show ?thesis
        proof (cases "invoke n f ?s1")
          case (Returned h s')
          then have ok: "realized_ok s'" and fresh: "\<forall>U. flag s' U = Done \<longrightarrow> obj s' U \<noteq> h"
            using IH by (auto simp: post_def)
          from invoke_frame(1)[OF Returned] Some have c: "constructor s' T = Some f"
            by (simp add: frame_def)
          from invoke_frame(3)[OF Returned] obtain a where
            a: "h = Some a" "a < length (heap s')" "cls (heap s' ! a) = impl_of f"
            by (auto simp: built_def)
          from realized_ok_done[OF ok c a fresh] show ?thesis
            using Idle Suc Some Returned by (simp add: registry_get.simps post_def)
        next
          case (Thrown e s')
          then have "realized_ok s'" using IH by (auto simp: post_def)
          from realized_ok_idle[OF this] show ?thesis
            using Idle Suc Some Thrown by (simp add: registry_get.simps post_def)
        qed (use Idle Suc Some in \<open>simp_all add: registry_get.simps post_def\<close>)
      qed
    qed
  next
    case Active then show ?thesis by (simp add: registry_get.simps post_def)
  next
    case Done then show ?thesis using 1(2) by (simp add: registry_get.simps post_def)
  qed
next
  case (2 fuel I T s)
  obtain h s' where ms: "make_shared T [] s = (h, s')" by (cases "make_shared T [] s")
  show ?case using ms realized_ok_make_shared[OF 2 ms] fresh_make_shared[OF 2 ms]
    by (simp add: post_def static_pointer_cast_def)
next
  case (3 fuel I T ctr_type s)
  show ?case
  proof (cases "construct_tuple fuel T ctr_type [0..<length ctr_type - 0] (replicate (length ctr_type) None) s")
    case (Returned tuple s')
    then have ok: "realized_ok s'" using 3 by (simp add: post_def)
    obtain h s'' where ms: "make_shared T tuple s' = (h, s'')" by (cases "make_shared T tuple s'")
    show ?thesis using Returned ms realized_ok_make_shared[OF ok ms] fresh_make_shared[OF ok ms]
      by (simp add: post_def static_pointer_cast_def)
  qed (use 3 in \<open>simp_all add: post_def\<close>)
next
  case (4 fuel BASE_T N TUPLE_T tuple s)
  then show ?case
    by (auto simp: construct_tuple_assign.simps post_def split: outcome.splits option.splits)
next
  case (5 fuel BASE_T TUPLE_T tuple s)
  then show ?case by (simp add: post_def)
next
  case (6 fuel BASE_T TUPLE_T N indices tuple s)
  then show ?case
    by (auto simp: post_def split: outcome.splits)
qed

lemma registry_get_realized_ok:
  "realized_ok s \<Longrightarrow> registry_get fuel T s = Returned h s' \<Longrightarrow> realized_ok s'"
  "realized_ok s \<Longrightarrow> registry_get fuel T s = Thrown e s' \<Longrightarrow> realized_ok s'"
  using post_realized_ok(1)[of s fuel T] by (simp_all add: post_def)

lemma pending_frame: "frame s s' \<Longrightarrow> pending s' \<subseteq> pending s"
  unfolding frame_def pending_def
  by (auto) (metis once_flag.exhaust)

lemma finite_pending: "finite (dom (constructor s)) \<Longrightarrow> finite (pending s)"
  by (rule finite_subset[of _ "dom (constructor s)"]) (auto simp: pending_def)

lemma card_pending_frame:
  assumes "frame s s'" "finite (dom (constructor s))"
  shows "card (pending s') \<le> card (pending s)"
  using pending_frame[OF assms(1)] finite_pending[OF assms(2)] by (rule card_mono[rotated])

lemma card_pending_active:
  assumes "finite (dom (constructor s))" "flag s T = Idle" "constructor s T = Some f"
    "card (pending s) < Suc n"
  shows "card (pending (s\<lparr>flag := (flag s)(T := Active)\<rparr>)) < n"
proof -
  have eq: "pending (s\<lparr>flag := (flag s)(T := Active)\<rparr>) = pending s - {T}"
    by (auto simp: pending_def)
  have "T \<in> pending s" using assms by (simp add: pending_def)
  then show ?thesis unfolding eq using finite_pending[OF assms(1)] assms(4)
    by (simp add: card_Diff_singleton) (metis card_gt_0_iff empty_iff less_Suc_eq_0_disj less_imp_diff_less not_less_eq diff_Suc_1 Suc_pred)
qed


lemma enough_fuel:
  shows "finite (dom (constructor s)) \<Longrightarrow> card (pending s) < fuel \<Longrightarrow> registry_get fuel T s \<noteq> Out_of_fuel"
    and "finite (dom (constructor s)) \<Longrightarrow> card (pending s) < fuel \<Longrightarrow> invoke fuel f s \<noteq> Out_of_fuel"
    and "finite (dom (constructor s)) \<Longrightarrow> card (pending s) < fuel \<Longrightarrow>
           construct_tuple_assign fuel B N tt tu s \<noteq> Out_of_fuel"
    and "finite (dom (constructor s)) \<Longrightarrow> card (pending s) < fuel \<Longrightarrow>
           construct_tuple fuel B tt ixs tu s \<noteq> Out_of_fuel"
proof (induction fuel T s and fuel f s and fuel B N tt tu s and fuel B tt ixs tu s
    rule: registry_get_invoke_construct_tuple_assign_construct_tuple.induct)
  case (1 fuel T s)
  show ?case
  proof (cases "flag s T")
    case Idle
    show ?thesis
    proof (cases fuel)
      case 0 then show ?thesis using 1(3) by simp
    next
      case (Suc n)
      show ?thesis
      proof (cases "constructor s T")
        case None then show ?thesis using Idle Suc by (simp add: registry_get.simps)
      next
        case (Some f)
        let ?s1 = "s\<lparr>flag := (flag s)(T := Active)\<rparr>"
        have fin: "finite (dom (constructor ?s1))" using 1(2) by simp
        have c: "card (pending ?s1) < n"
          using card_pending_active[OF 1(2) Idle Some] 1(3) Suc by simp
        from 1(1)[OF Idle Suc Some fin c] show ?thesis
          using Idle Suc Some by (simp add: registry_get.simps split: outcome.splits)
      qed
    qed
  next
    case Active then show ?thesis by (simp add: registry_get.simps)
  next
    case Done then show ?thesis by (simp add: registry_get.simps)
  qed
next
  case (2 fuel I T s)
  then show ?case by (simp split: prod.splits)
next
  case (3 fuel I T ctr_type s)
  then show ?case by (simp split: outcome.splits prod.splits)
next
  case (4 fuel BASE_T N TUPLE_T tuple s)
  then show ?case
    by (auto simp: construct_tuple_assign.simps split: outcome.splits option.splits)
next
  case (5 fuel BASE_T TUPLE_T tuple s)
  then show ?case by simp
next
  case (6 fuel BASE_T TUPLE_T N indices tuple s)
  show ?case
  proof (cases "construct_tuple_assign fuel BASE_T N TUPLE_T tuple s")
    case (Returned tu' s')
    from construct_tuple_assign_frame(1)[OF Returned] have fr: "frame s s'" .
    have fin: "finite (dom (constructor s'))" using fr 6(3) by (simp add: frame_def)
    have "card (pending s') < fuel" using card_pending_frame[OF fr 6(3)] 6(4) by simp
    from 6(2)[OF Returned fin this] show ?thesis using Returned by simp
  qed (use 6 in simp_all)
qed

lemma well_built_frame: "frame s s' \<Longrightarrow> well_built s' = well_built s"
  by (simp add: well_built_def frame_def)

lemma wired_frame: "frame s s' \<Longrightarrow> wired S s' = wired S s"
  by (simp add: wired_def frame_def)

lemma element_types_nth:
  "N < length tt \<Longrightarrow> tt ! N = Shared_ptr E \<Longrightarrow> E \<in> set (element_types tt)"
  by (force simp: element_types_def List.map_filter_def in_set_conv_nth image_iff)

lemma is_shared_ptr_iff: "is_shared_ptr P \<longleftrightarrow> (\<exists>E. P = Shared_ptr E)"
  by (cases P) auto

lemma no_failure_all:
  shows "well_built s \<Longrightarrow> wired S s \<Longrightarrow> T \<in> S \<Longrightarrow> no_failure (registry_get fuel T s)"
    and "well_built s \<Longrightarrow> wired S s \<Longrightarrow> set (deps_of f) \<subseteq> S \<Longrightarrow>
           (\<forall>I C ct. f = Tuple_ctor I C ct \<longrightarrow> list_all is_shared_ptr ct) \<Longrightarrow>
           no_failure (invoke fuel f s)"
    and "well_built s \<Longrightarrow> wired S s \<Longrightarrow> N < length tt \<Longrightarrow> (\<exists>E. tt ! N = Shared_ptr E \<and> E \<in> S) \<Longrightarrow>
           no_failure (construct_tuple_assign fuel B N tt tu s)"
    and "well_built s \<Longrightarrow> wired S s \<Longrightarrow>
           (\<forall>N\<in>set ixs. N < length tt \<and> (\<exists>E. tt ! N = Shared_ptr E \<and> E \<in> S)) \<Longrightarrow>
           no_failure (construct_tuple fuel B tt ixs tu s)"
proof (induction fuel T s and fuel f s and fuel B N tt tu s and fuel B tt ixs tu s
    rule: registry_get_invoke_construct_tuple_assign_construct_tuple.induct)
  case (1 fuel T s)
  from 1(3,4) obtain f where f: "constructor s T = Some f" "set (deps_of f) \<subseteq> S"
    by (auto simp: wired_def)
  show ?case
  proof (cases "flag s T")
    case Idle
    show ?thesis
    proof (cases fuel)
      case 0 then show ?thesis using Idle by (simp add: registry_get.simps no_failure_def)
    next
      case (Suc n)
      let ?s1 = "s\<lparr>flag := (flag s)(T := Active)\<rparr>"
      have wb: "well_built ?s1" using 1(2) by (simp add: well_built_def)
      have wi: "wired S ?s1" using 1(3) by (simp add: wired_def)
      have sh: "\<forall>I C ct. f = Tuple_ctor I C ct \<longrightarrow> list_all is_shared_ptr ct"
        using 1(2) f(1) unfolding well_built_def by blast
      from 1(1)[OF Idle Suc f(1) wb wi f(2) sh] show ?thesis
        using Idle Suc f(1) by (simp add: registry_get.simps no_failure_def split: outcome.splits)
    qed
  next
    case Active then show ?thesis by (simp add: registry_get.simps no_failure_def)
  next
    case Done then show ?thesis by (simp add: registry_get.simps no_failure_def)
  qed
next
  case (2 fuel I T s)
  then show ?case by (simp add: no_failure_def split: prod.splits)
next
  case (3 fuel I T ctr_type s)
  have "\<forall>N\<in>set [0..<length ctr_type - 0]. N < length ctr_type \<and> (\<exists>E. ctr_type ! N = Shared_ptr E \<and> E \<in> S)"
  proof
    fix N assume "N \<in> set [0..<length ctr_type - 0]"
    then have N: "N < length ctr_type" by simp
    then have "is_shared_ptr (ctr_type ! N)" using 3(5) by (simp add: list_all_length)
    then obtain E where E: "ctr_type ! N = Shared_ptr E" by (auto simp: is_shared_ptr_iff)
    then have "E \<in> S" using element_types_nth[OF N E] 3(4) by auto
    then show "N < length ctr_type \<and> (\<exists>E. ctr_type ! N = Shared_ptr E \<and> E \<in> S)" using N E by blast
  qed
  from 3(1)[OF 3(2,3) this] show ?case
    by (simp add: no_failure_def split: outcome.splits prod.splits)
next
  case (4 fuel BASE_T N TUPLE_T tuple s)
  from 4(5) obtain E where E: "TUPLE_T ! N = Shared_ptr E" "E \<in> S" by blast
  then have et: "element_type (TUPLE_T ! N) = Some E" by simp
  from 4(1)[OF 4(4) et 4(2,3) E(2)] show ?case
    using 4(4) et by (simp add: construct_tuple_assign.simps no_failure_def split: outcome.splits)
next
  case (5 fuel BASE_T TUPLE_T tuple s)
  then show ?case by (simp add: no_failure_def)
next
  case (6 fuel BASE_T TUPLE_T N indices tuple s)
  have a: "no_failure (construct_tuple_assign fuel BASE_T N TUPLE_T tuple s)"
    using 6(1)[OF 6(3,4)] 6(5) by simp
  show ?case
  proof (cases "construct_tuple_assign fuel BASE_T N TUPLE_T tuple s")
    case (Returned tu' s')
    from construct_tuple_assign_frame(1)[OF Returned] have fr: "frame s s'" .
    have "no_failure (construct_tuple fuel BASE_T TUPLE_T indices tu' s')"
      using 6(2)[OF Returned] 6(3,4,5) well_built_frame[OF fr] wired_frame[OF fr] by simp
    then show ?thesis using Returned by simp
  qed (use a in \<open>simp_all add: no_failure_def\<close>)
qed


section \<open>Properties of the calls of a program\<close>

lemma add_eq:
  "add p I T s =
     (if constructor s I \<noteq> None then s
      else s\<lparr>constructor := (constructor s)(I \<mapsto> lambda_of p I T)\<rparr>)"
  by (simp add: add_def add_default_def add_tuple_def lambda_of_def)

lemma add_noop: "constructor s I \<noteq> None \<Longrightarrow> add p I T s = s"
  by (simp add: add_eq)

lemma add_fields [simp]:
  "heap (add p I T s) = heap s" "flag (add p I T s) = flag s" "obj (add p I T s) = obj s"
  by (simp_all add: add_eq)

lemma add_constructor_keep: "constructor s J = Some f \<Longrightarrow> constructor (add p I T s) J = Some f"
  by (auto simp: add_eq)

lemma add_constructor_new: "constructor s I = None \<Longrightarrow> constructor (add p I T s) I = Some (lambda_of p I T)"
  by (simp add: add_eq)

lemma impl_of_lambda_of [simp]: "impl_of (lambda_of p I T) = T"
  by (simp add: lambda_of_def)

lemma consistent_init: "consistent p init_state"
  by (simp add: consistent_def realized_ok_def quiescent_def stored_by_def init_state_def)

lemma consistent_add:
  assumes "consistent p s"
  shows "consistent p (add p I T s)"
proof -
  have "finite (dom (constructor (add p I T s)))"
    using assms by (simp add: consistent_def add_eq)
  moreover have "realized_ok (add p I T s) \<and> quiescent (add p I T s) \<and> stored_by p (add p I T s)"
    using assms unfolding consistent_def realized_ok_def quiescent_def stored_by_def add_eq
    by auto
  ultimately show ?thesis by (simp add: consistent_def)
qed

lemma consistent_frame:
  assumes "consistent p s" "frame s s'" "realized_ok s'"
  shows "consistent p s'"
  using assms unfolding consistent_def quiescent_def stored_by_def frame_def by auto

lemma consistent_exec:
  assumes "consistent p s" "exec p fuel c s = Some s'"
  shows "consistent p s'"
proof (cases c)
  case (Add I T) then show ?thesis using assms consistent_add by auto
next
  case (Add_self T) then show ?thesis using assms consistent_add by (auto simp: add_self_def)
next
  case (Get T)
  have ok: "realized_ok s" using assms(1) by (simp add: consistent_def)
  show ?thesis
  proof (cases "registry_get fuel T s")
    case (Returned h s1)
    then have "s' = s1" using assms(2) Get by (simp add: get_def)
    then show ?thesis
      using consistent_frame[OF assms(1) registry_get_frame(1)[OF Returned]
          registry_get_realized_ok(1)[OF ok Returned]] by simp
  next
    case (Thrown e s1)
    then have "s' = s1" using assms(2) Get by (simp add: get_def)
    then show ?thesis
      using consistent_frame[OF assms(1) registry_get_frame(2)[OF Thrown]
          registry_get_realized_ok(2)[OF ok Thrown]] by simp
  qed (use assms(2) Get in \<open>simp_all add: get_def\<close>)
qed

lemma consistent_run:
  "consistent p s \<Longrightarrow> run p fuel cs s = Some s' \<Longrightarrow> consistent p s'"
proof (induction cs arbitrary: s)
  case Nil then show ?case by simp
next
  case (Cons c cs)
  then obtain s1 where 1: "exec p fuel c s = Some s1" and 2: "run p fuel cs s1 = Some s'"
    by (auto split: option.splits)
  show ?case using Cons.IH[OF consistent_exec[OF Cons.prems(1) 1] 2] .
qed

text \<open>What every call keeps: finished registries, stored lambdas, built objects.\<close>

lemma exec_keeps:
  assumes "exec p fuel c s = Some s'"
  shows "(\<forall>U. flag s U = Done \<longrightarrow> flag s' U = Done \<and> obj s' U = obj s U)
       \<and> (\<forall>J f. constructor s J = Some f \<longrightarrow> constructor s' J = Some f)
       \<and> (\<exists>new. heap s' = heap s @ new)"
proof (cases c)
  case (Add I T) then show ?thesis using assms by (auto simp: add_constructor_keep)
next
  case (Add_self T) then show ?thesis using assms by (auto simp: add_self_def add_constructor_keep)
next
  case (Get T)
  show ?thesis
  proof (cases "registry_get fuel T s")
    case (Returned h s1)
    then have "s' = s1" using assms Get by (simp add: get_def)
    then show ?thesis using registry_get_frame(1)[OF Returned] by (auto simp: frame_def)
  next
    case (Thrown e s1)
    then have "s' = s1" using assms Get by (simp add: get_def)
    then show ?thesis using registry_get_frame(2)[OF Thrown] by (auto simp: frame_def)
  qed (use assms Get in \<open>simp_all add: get_def\<close>)
qed

lemma run_keeps:
  "run p fuel cs s = Some s' \<Longrightarrow>
     (\<forall>U. flag s U = Done \<longrightarrow> flag s' U = Done \<and> obj s' U = obj s U)
       \<and> (\<forall>J f. constructor s J = Some f \<longrightarrow> constructor s' J = Some f)
       \<and> (\<exists>new. heap s' = heap s @ new)"
proof (induction cs arbitrary: s)
  case Nil then show ?case by simp
next
  case (Cons c cs)
  then obtain s1 where 1: "exec p fuel c s = Some s1" and 2: "run p fuel cs s1 = Some s'"
    by (auto split: option.splits)
  from exec_keeps[OF 1] Cons.IH[OF 2] show ?case
    by (elim conjE exE, intro conjI) auto
qed

lemma demo_simps:
  "is_default_constructible demo T \<longleftrightarrow>
     T = FileLogger \<or> T = ConsoleLogger \<or> T = MockService \<or> T = Duo"
  "as_tuple_t demo Service = [Shared_ptr ILogger]"
  by (simp_all add: demo_def compiled_def demo_classes_simps as_tuple_demo_Service)

lemma demo_lambdas:
  "lambda_of demo I FileLogger = Default_ctor I FileLogger"
  "lambda_of demo I ConsoleLogger = Default_ctor I ConsoleLogger"
  "lambda_of demo I MockService = Default_ctor I MockService"
  "lambda_of demo I Service = Tuple_ctor I Service [Shared_ptr ILogger]"
  by (simp_all add: lambda_of_def demo_simps demo_names_distinct)

lemmas demo_eval = get_def add_self_def add_eq demo_lambdas init_state_def registry_get.simps
  construct_tuple_assign.simps make_shared_def static_pointer_cast_def demo_names_distinct
  demo_names_distinct[symmetric]


text \<open>A registry that holds a lambda keeps it, and a handle it returns refers to the class of that lambda.\<close>

lemma first_writer_if_returned:
  assumes reach: "run p fuel0 calls0 init_state = Some s"
    and unbound: "constructor s I = None"
    and later: "run p fuel1 calls1 (add p I A s) = Some s2"
    and got: "get fuel2 I s2 = Returned h s3"
  shows "add p I B s2 = s2 \<and> constructor s2 I = Some (lambda_of p I A)
       \<and> (\<exists>a. h = Some a \<and> a < length (heap s3) \<and> cls (heap s3 ! a) = A)"
proof -
  have c1: "constructor (add p I A s) I = Some (lambda_of p I A)"
    using unbound by (rule add_constructor_new)
  then have c2: "constructor s2 I = Some (lambda_of p I A)" using run_keeps[OF later] by blast
  have "consistent p s" using consistent_run[OF consistent_init reach] .
  then have "consistent p s2" using consistent_run[OF consistent_add later] by blast
  then have ok2: "realized_ok s2" by (simp add: consistent_def)
  from got have g: "registry_get fuel2 I s2 = Returned h s3" by (simp add: get_def)
  have ok3: "realized_ok s3" using registry_get_realized_ok(1)[OF ok2 g] .
  have c3: "constructor s3 I = Some (lambda_of p I A)"
    using registry_get_frame(1)[OF g] c2 by (simp add: frame_def)
  from registry_get_Returned[OF g] have d: "flag s3 I = Done" "obj s3 I = h" by simp_all
  from ok3 d c3 have "\<exists>a. h = Some a \<and> a < length (heap s3) \<and> cls (heap s3 ! a) = A"
    unfolding realized_ok_def by fastforce
  then show ?thesis using c2 add_noop[of s2 I p B] by simp
qed


lemma constructed_append:
  "heap s' = heap s @ new \<Longrightarrow> constructed C s' = constructed C s + length (filter (\<lambda>ob. cls ob = C) new)"
  by (simp add: constructed_def)

lemma filter_two:
  assumes "b1 < length xs" "b2 < length xs" "b1 \<noteq> b2" "P (xs ! b1)" "P (xs ! b2)"
  shows "2 \<le> length (filter P xs)"
proof -
  have "{b1, b2} \<subseteq> {i. i < length xs \<and> P (xs ! i)}" using assms by auto
  then have "card {b1, b2} \<le> card {i. i < length xs \<and> P (xs ! i)}"
    by (intro card_mono) auto
  then show ?thesis using assms(3) by (simp add: length_filter_conv_card)
qed

lemma constructed_two_new:
  assumes h: "heap s' = heap s @ new"
    and a1: "length (heap s) \<le> a1" "a1 < length (heap s')" "cls (heap s' ! a1) = C"
    and a2: "length (heap s) \<le> a2" "a2 < length (heap s')" "cls (heap s' ! a2) = C"
    and ne: "a1 \<noteq> a2"
  shows "constructed C s + 2 \<le> constructed C s'"
proof -
  let ?n = "length (heap s)"
  have 1: "a1 - ?n < length new" "cls (new ! (a1 - ?n)) = C"
    using a1 h by (auto simp: nth_append)
  have 2: "a2 - ?n < length new" "cls (new ! (a2 - ?n)) = C"
    using a2 h by (auto simp: nth_append)
  have "a1 - ?n \<noteq> a2 - ?n" using ne a1(1) a2(1) by arith
  from filter_two[OF 1(1) 2(1) this, of "\<lambda>ob. cls ob = C"] 1(2) 2(2)
  show ?thesis using constructed_append[OF h, of C] by simp
qed

lemma consistent_not_done:
  "consistent p s \<Longrightarrow> constructor s I = None \<Longrightarrow> flag s I = Idle"
  unfolding consistent_def realized_ok_def quiescent_def
  by (metis once_flag.exhaust option.distinct(1))

text \<open>Two registries that both return hold two different new objects.\<close>

lemma two_instances_if_returned:
  assumes reach: "run p fuel0 calls0 init_state = Some s"
    and ne: "I1 \<noteq> I2"
    and u1: "constructor s I1 = None" and u2: "constructor s I2 = None"
    and g1: "get fuel1 I1 (add p I2 Impl (add p I1 Impl s)) = Returned h1 s2"
    and g2: "get fuel2 I2 s2 = Returned h2 s3"
  shows "\<exists>a1 a2. h1 = Some a1 \<and> h2 = Some a2 \<and> a1 \<noteq> a2
           \<and> length (heap s) \<le> a1 \<and> a1 < length (heap s3) \<and> cls (heap s3 ! a1) = Impl
           \<and> length (heap s) \<le> a2 \<and> a2 < length (heap s3) \<and> cls (heap s3 ! a2) = Impl
           \<and> constructed Impl s + 2 \<le> constructed Impl s3"
proof -
  let ?s1 = "add p I2 Impl (add p I1 Impl s)"
  have cs: "consistent p s" using consistent_run[OF consistent_init reach] .
  then have cs1: "consistent p ?s1" by (intro consistent_add)
  have i1: "flag ?s1 I1 = Idle" and i2: "flag ?s1 I2 = Idle"
    using consistent_not_done[OF cs u1] consistent_not_done[OF cs u2] by simp_all
  have c1: "constructor ?s1 I1 = Some (lambda_of p I1 Impl)"
    using add_constructor_keep[OF add_constructor_new[OF u1]] by simp
  have "constructor (add p I1 Impl s) I2 = None" using u2 ne by (simp add: add_eq)
  then have c2: "constructor ?s1 I2 = Some (lambda_of p I2 Impl)" by (rule add_constructor_new)
  from g1 have r1: "registry_get fuel1 I1 ?s1 = Returned h1 s2" by (simp add: get_def)
  from g2 have r2: "registry_get fuel2 I2 s2 = Returned h2 s3" by (simp add: get_def)
  have f12: "frame ?s1 s2" using registry_get_frame(1)[OF r1] .
  have f23: "frame s2 s3" using registry_get_frame(1)[OF r2] .
  have f13: "frame ?s1 s3" using frame_trans[OF f12 f23] .
  have ok1: "realized_ok ?s1" using cs1 by (simp add: consistent_def)
  have ok2: "realized_ok s2" using registry_get_realized_ok(1)[OF ok1 r1] .
  have ok3: "realized_ok s3" using registry_get_realized_ok(1)[OF ok2 r2] .
  have d1: "flag s3 I1 = Done" "obj s3 I1 = h1"
    using registry_get_Returned[OF r1] f23 by (simp_all add: frame_def)
  have d2: "flag s3 I2 = Done" "obj s3 I2 = h2"
    using registry_get_Returned[OF r2] by simp_all
  have c13: "constructor s3 I1 = Some (lambda_of p I1 Impl)"
    and c23: "constructor s3 I2 = Some (lambda_of p I2 Impl)"
    using f13 c1 c2 by (simp_all add: frame_def)
  from ok3 d1 c13 obtain a1 where a1: "h1 = Some a1" "a1 < length (heap s3)" "cls (heap s3 ! a1) = Impl"
    unfolding realized_ok_def by fastforce
  from ok3 d2 c23 obtain a2 where a2: "h2 = Some a2" "a2 < length (heap s3)" "cls (heap s3 ! a2) = Impl"
    unfolding realized_ok_def by fastforce
  have ne12: "a1 \<noteq> a2"
  proof
    assume "a1 = a2"
    then have "obj s3 I1 = obj s3 I2" using d1 d2 a1 a2 by simp
    then have "I1 = I2" using ok3 d1(1) d2(1) unfolding realized_ok_def by blast
    then show False using ne by simp
  qed
  have fresh: "\<And>U a. flag ?s1 U \<noteq> Done \<Longrightarrow> flag s3 U = Done \<Longrightarrow> obj s3 U = Some a \<Longrightarrow> length (heap ?s1) \<le> a"
    using f13 unfolding frame_def by blast
  have l1: "length (heap s) \<le> a1" using fresh[of I1 a1] i1 d1 a1 by simp
  have l2: "length (heap s) \<le> a2" using fresh[of I2 a2] i2 d2 a2 by simp
  from f13 obtain new where h: "heap s3 = heap s @ new" by (auto simp: frame_def)
  have "constructed Impl s + 2 \<le> constructed Impl s3"
    using constructed_two_new[OF h l1 a1(2,3) l2 a2(2,3) ne12] .
  then show ?thesis using a1 a2 ne12 l1 l2 by blast
qed

lemma well_built_init: "well_built init_state"
  by (simp add: well_built_def init_state_def)

lemma well_built_add:
  "well_built s \<Longrightarrow> is_default_constructible p T \<or> list_all is_shared_ptr (as_tuple_t p T) \<Longrightarrow>
     well_built (add p I T s)"
  unfolding well_built_def add_eq lambda_of_def by (auto split: if_splits)

lemma well_built_exec:
  assumes "well_built s" "call_built p c" "exec p fuel c s = Some s'"
  shows "well_built s'"
proof (cases c)
  case (Add I T) then show ?thesis using assms well_built_add by auto
next
  case (Add_self T) then show ?thesis using assms well_built_add by (auto simp: add_self_def)
next
  case (Get T)
  show ?thesis
  proof (cases "registry_get fuel T s")
    case (Returned h s1)
    then have "s' = s1" using assms(3) Get by (simp add: get_def)
    then show ?thesis using well_built_frame[OF registry_get_frame(1)[OF Returned]] assms(1) by simp
  next
    case (Thrown e s1)
    then have "s' = s1" using assms(3) Get by (simp add: get_def)
    then show ?thesis using well_built_frame[OF registry_get_frame(2)[OF Thrown]] assms(1) by simp
  qed (use assms(3) Get in \<open>simp_all add: get_def\<close>)
qed

lemma well_built_run:
  "well_built s \<Longrightarrow> \<forall>c\<in>set cs. call_built p c \<Longrightarrow> run p fuel cs s = Some s' \<Longrightarrow> well_built s'"
proof (induction cs arbitrary: s)
  case Nil then show ?case by simp
next
  case (Cons c cs)
  then obtain s1 where 1: "exec p fuel c s = Some s1" and 2: "run p fuel cs s1 = Some s'"
    by (auto split: option.splits)
  have "well_built s1" using well_built_exec[OF Cons.prems(1) _ 1] Cons.prems(2) by simp
  then show ?case using Cons.IH[OF _ _ 2] Cons.prems(2) by simp
qed

lemma inst_add_call_built:
  assumes "inst_add cl tbl I T L = Inr L'"
  shows "is_default_constructible (compiled cl tbl) T
           \<or> list_all is_shared_ptr (as_tuple_t (compiled cl tbl) T)"
proof (cases "default_constructible cl T")
  case True then show ?thesis by (simp add: compiled_def)
next
  case False
  with assms obtain ct where ct: "as_tuple cl tbl T = Inr ct"
    and e: "inst_construct_tuple T 0 (length ct) ct = []"
    by (auto simp: inst_add_def split: if_splits sum.splits list.splits)
  from e have "filter (\<lambda>P. \<not> is_shared_ptr P) ct = []"
    by (simp add: inst_construct_tuple_eq)
  then have "list_all is_shared_ptr ct" by (simp add: filter_empty_conv list_all_iff)
  then show ?thesis using ct by (simp add: compiled_def)
qed

lemma inst_call_built: "inst cl tbl c L = Inr L' \<Longrightarrow> call_built (compiled cl tbl) c"
  by (cases c) (auto simp: inst_add_self_def dest: inst_add_call_built)

lemma build_call_built:
  "build cl tbl cs L = Inr L' \<Longrightarrow> \<forall>c\<in>set cs. call_built (compiled cl tbl) c"
proof (induction cs arbitrary: L)
  case Nil then show ?case by simp
next
  case (Cons c cs)
  then obtain L1 where 1: "inst cl tbl c L = Inr L1" and 2: "build cl tbl cs L1 = Inr L'"
    by (auto split: sum.splits)
  show ?case using inst_call_built[OF 1] Cons.IH[OF 2] by simp
qed

section \<open>Properties of the lambdas\<close>

lemma element_types_Cons_shared [simp]:
  "element_types (Shared_ptr E # tt) = E # element_types tt"
  by (simp add: element_types_def)

lemma element_types_Nil [simp]: "element_types [] = []"
  by (simp add: element_types_def)

lemma construct_tuple_resolve:
  assumes "list_all is_shared_ptr tt" "length tu = length tt" "k \<le> length tt"
  shows "construct_tuple fuel B tt [k..<length tt] tu s
           = map_returned (\<lambda>hs. take k tu @ hs) (resolve_in_order fuel (element_types (drop k tt)) s)"
  using assms
proof (induction "length tt - k" arbitrary: k tu s)
  case 0
  then have "k = length tt" by simp
  then show ?case using 0 by (simp add: map_returned_def)
next
  case (Suc d)
  then have k: "k < length tt" by simp
  then have "is_shared_ptr (tt ! k)" using Suc.prems(1) by (simp add: list_all_length)
  then obtain E where E: "tt ! k = Shared_ptr E" by (auto simp: is_shared_ptr_iff)
  have up: "[k..<length tt] = k # [Suc k..<length tt]" using k by (simp add: upt_conv_Cons)
  have dr: "drop k tt = Shared_ptr E # drop (Suc k) tt" using k E by (metis Cons_nth_drop_Suc)
  show ?case
  proof (cases "registry_get fuel E s")
    case (Returned h s')
    have d: "d = length tt - Suc k" using Suc.hyps(2) by simp
    have l: "length (tu[k := h]) = length tt" using Suc.prems(2) by simp
    have sk: "Suc k \<le> length tt" using k by simp
    have tk: "take (Suc k) (tu[k := h]) = take k tu @ [h]"
      using k Suc.prems(2) by (simp add: take_Suc_conv_app_nth)
    from Suc.hyps(1)[OF d Suc.prems(1) l sk, of s'] show ?thesis
      unfolding up dr using Returned k E tk
      by (simp add: construct_tuple_assign.simps get_def map_returned_def split: outcome.splits)
  qed (use k E in \<open>simp_all add: up dr construct_tuple_assign.simps get_def map_returned_def\<close>)
qed

lemma map_returned_id: "map_returned (\<lambda>hs. hs) r = r"
  by (simp add: map_returned_def split: outcome.splits)

text \<open>
  C8. Instantiating the lambda of a class fails once for every parameter type of the
  tuple that is not a \<open>std::shared_ptr\<close>, with an error that carries the class and that
  parameter type, and \<open>add\<close> fails to build with the first of them. When every parameter
  type is a \<open>std::shared_ptr\<close> nothing fails, and at run time \<open>construct_tuple\<close> is
  \<open>get\<close> of each element type, in the order of the signature, the handles collected in
  that order.
\<close>

theorem non_handle_parameter_fails_build:
  "inst_construct_tuple BASE_T 0 (length TUPLE_T) TUPLE_T
      = map (Fail_type BASE_T) (filter (\<lambda>P. \<not> is_shared_ptr P) TUPLE_T)
   \<and> (as_tuple cl tbl T = Inr ctr_type \<and> \<not> default_constructible cl T \<and> (I = T \<or> base_of cl I T) \<longrightarrow>
        inst_add cl tbl I T L =
          (case filter (\<lambda>P. \<not> is_shared_ptr P) ctr_type of
             [] \<Rightarrow> Inr (set_type I L)
           | P # Ps \<Rightarrow> Inl (Fail_type T P)))
   \<and> (list_all is_shared_ptr TUPLE_T \<longrightarrow>
        inst_construct_tuple BASE_T 0 (length TUPLE_T) TUPLE_T = []
        \<and> construct_tuple fuel BASE_T TUPLE_T [0..<length TUPLE_T - 0]
              (replicate (length TUPLE_T) None) s
            = resolve_in_order fuel (element_types TUPLE_T) s)"
proof (intro conjI impI)
  show "inst_construct_tuple BASE_T 0 (length TUPLE_T) TUPLE_T
      = map (Fail_type BASE_T) (filter (\<lambda>P. \<not> is_shared_ptr P) TUPLE_T)"
    by (rule inst_construct_tuple_eq)
next
  assume a: "as_tuple cl tbl T = Inr ctr_type \<and> \<not> default_constructible cl T \<and> (I = T \<or> base_of cl I T)"
  then show "inst_add cl tbl I T L =
          (case filter (\<lambda>P. \<not> is_shared_ptr P) ctr_type of
             [] \<Rightarrow> Inr (set_type I L)
           | P # Ps \<Rightarrow> Inl (Fail_type T P))"
    by (auto simp: inst_add_def inst_construct_tuple_eq split: list.splits)
next
  assume a: "list_all is_shared_ptr TUPLE_T"
  then have "filter (\<lambda>P. \<not> is_shared_ptr P) TUPLE_T = []"
    by (simp add: filter_empty_conv list_all_iff)
  then show "inst_construct_tuple BASE_T 0 (length TUPLE_T) TUPLE_T = []"
    by (simp add: inst_construct_tuple_eq)
  show "construct_tuple fuel BASE_T TUPLE_T [0..<length TUPLE_T - 0]
              (replicate (length TUPLE_T) None) s
            = resolve_in_order fuel (element_types TUPLE_T) s"
    using construct_tuple_resolve[OF a, of "replicate (length TUPLE_T) None" 0 fuel BASE_T s]
    by (simp add: map_returned_id)
qed

theorem non_handle_parameter_fails_build_witness:
  "as_tuple demo_classes demo_loopholes Counter = Inr [Named ''int'']
     \<and> \<not> default_constructible demo_classes Counter
     \<and> inst_add demo_classes demo_loopholes Counter Counter {} = Inl (Fail_type Counter (Named ''int''))
     \<and> list_all is_shared_ptr [Shared_ptr ILogger]
     \<and> inst_construct_tuple Service 0 (length [Shared_ptr ILogger]) [Shared_ptr ILogger] = []
     \<and> construct_tuple 1 Service [Shared_ptr ILogger] [0..<length [Shared_ptr ILogger] - 0]
          (replicate (length [Shared_ptr ILogger]) None) (add demo ILogger FileLogger init_state)
        = resolve_in_order 1 [ILogger] (add demo ILogger FileLogger init_state)"
proof -
  have d: "\<not> default_constructible demo_classes Counter"
    by (simp add: demo_classes_simps demo_names_distinct)
  have sh: "list_all is_shared_ptr [Shared_ptr ILogger]" by simp
  note th = non_handle_parameter_fails_build[where cl = demo_classes and tbl = demo_loopholes and T = Counter
      and ctr_type = "[Named ''int'']" and I = Counter and L = "{}"
      and BASE_T = Service and TUPLE_T = "[Shared_ptr ILogger]" and fuel = 1
      and s = "add demo ILogger FileLogger init_state"]
  from th as_tuple_demo_Counter d
  have 1: "inst_add demo_classes demo_loopholes Counter Counter {} = Inl (Fail_type Counter (Named ''int''))"
    by simp
  from th sh have 2: "inst_construct_tuple Service 0 (length [Shared_ptr ILogger]) [Shared_ptr ILogger] = []"
    and 3: "construct_tuple 1 Service [Shared_ptr ILogger] [0..<length [Shared_ptr ILogger] - 0]
          (replicate (length [Shared_ptr ILogger]) None) (add demo ILogger FileLogger init_state)
        = resolve_in_order 1 (element_types [Shared_ptr ILogger]) (add demo ILogger FileLogger init_state)"
    by blast+
  show ?thesis using as_tuple_demo_Counter d sh 1 2 3 by simp
qed


section \<open>Counting the constructor runs\<close>















section \<open>Cyclic dependencies\<close>

lemma dep_rel_frame: "frame s s' \<Longrightarrow> dep_rel s' = dep_rel s"
  by (simp add: dep_rel_def frame_def)

lemma cyclic_from_frame: "frame s s' \<Longrightarrow> cyclic_from s' T = cyclic_from s T"
  by (simp add: cyclic_from_def dep_rel_frame)

lemma dep_rel_flag [simp]: "dep_rel (s\<lparr>flag := fl\<rparr>) = dep_rel s"
  by (simp add: dep_rel_def)

lemma cyclic_from_flag [simp]: "cyclic_from (s\<lparr>flag := fl\<rparr>) T = cyclic_from s T"
  by (simp add: cyclic_from_def)

lemma cyclic_from_step: "(X, E) \<in> (dep_rel s)\<^sup>* \<Longrightarrow> cyclic_from s E \<Longrightarrow> cyclic_from s X"
  unfolding cyclic_from_def by (meson rtrancl_trans)

lemma blocked_cyclic:
  shows "(\<forall>A. flag s A = Active \<longrightarrow> (A, T) \<in> (dep_rel s)\<^sup>+) \<Longrightarrow>
           registry_get fuel T s = Blocked \<Longrightarrow> cyclic_from s T"
    and "(\<forall>A. flag s A = Active \<longrightarrow> (A, X) \<in> (dep_rel s)\<^sup>*) \<Longrightarrow>
           (\<forall>E\<in>set (deps_of f). (X, E) \<in> dep_rel s) \<Longrightarrow>
           invoke fuel f s = Blocked \<Longrightarrow> cyclic_from s X"
    and "(\<forall>A. flag s A = Active \<longrightarrow> (A, X) \<in> (dep_rel s)\<^sup>*) \<Longrightarrow>
           (\<forall>E. N < length tt \<and> tt ! N = Shared_ptr E \<longrightarrow> (X, E) \<in> dep_rel s) \<Longrightarrow>
           construct_tuple_assign fuel B N tt tu s = Blocked \<Longrightarrow> cyclic_from s X"
    and "(\<forall>A. flag s A = Active \<longrightarrow> (A, X) \<in> (dep_rel s)\<^sup>*) \<Longrightarrow>
           (\<forall>N\<in>set ixs. \<forall>E. N < length tt \<and> tt ! N = Shared_ptr E \<longrightarrow> (X, E) \<in> dep_rel s) \<Longrightarrow>
           construct_tuple fuel B tt ixs tu s = Blocked \<Longrightarrow> cyclic_from s X"
proof (induction fuel T s and fuel f s and fuel B N tt tu s and fuel B tt ixs tu s
    arbitrary: and X and X and X
    rule: registry_get_invoke_construct_tuple_assign_construct_tuple.induct)
  case (1 fuel T s)
  show ?case
  proof (cases "flag s T")
    case Idle
    then obtain n f where n: "fuel = Suc n" and f: "constructor s T = Some f"
      using 1(3) by (auto simp: registry_get.simps split: nat.splits option.splits)
    let ?s1 = "s\<lparr>flag := (flag s)(T := Active)\<rparr>"
    from 1(3) Idle n f have inv: "invoke n f ?s1 = Blocked"
      by (auto simp: registry_get.simps split: outcome.splits)
    have a: "\<forall>A. flag ?s1 A = Active \<longrightarrow> (A, T) \<in> (dep_rel ?s1)\<^sup>*"
      using 1(2) by (auto intro: trancl_into_rtrancl)
    have d: "\<forall>E\<in>set (deps_of f). (T, E) \<in> dep_rel ?s1"
      using f by (auto simp: dep_rel_def)
    from 1(1)[OF Idle n f a d inv] show ?thesis by simp
  next
    case Active
    then have "(T, T) \<in> (dep_rel s)\<^sup>+" using 1(2) by blast
    then show ?thesis unfolding cyclic_from_def by blast
  next
    case Done then show ?thesis using 1(3) by (simp add: registry_get.simps)
  qed
next
  case (2 fuel I T s)
  then show ?case by (simp split: prod.splits)
next
  case (3 fuel I T ctr_type s)
  from 3(4) have b: "construct_tuple fuel T ctr_type [0..<length ctr_type - 0]
      (replicate (length ctr_type) None) s = Blocked"
    by (auto split: outcome.splits prod.splits)
  have "\<forall>N\<in>set [0..<length ctr_type - 0]. \<forall>E. N < length ctr_type \<and> ctr_type ! N = Shared_ptr E \<longrightarrow>
          (X, E) \<in> dep_rel s"
    using 3(3) element_types_nth by auto
  from 3(1)[OF 3(2) this b] show ?case .
next
  case (4 fuel BASE_T N TUPLE_T tuple s)
  from 4(4) obtain E where N: "N < length TUPLE_T" and E: "element_type (TUPLE_T ! N) = Some E"
    and g: "registry_get fuel E s = Blocked"
    by (auto simp: construct_tuple_assign.simps split: if_splits option.splits outcome.splits)
  from E have "TUPLE_T ! N = Shared_ptr E" by (cases "TUPLE_T ! N") simp_all
  then have xe: "(X, E) \<in> dep_rel s" using 4(3) N by blast
  have "\<forall>A. flag s A = Active \<longrightarrow> (A, E) \<in> (dep_rel s)\<^sup>+"
    using 4(2) xe by (auto intro: rtrancl_into_trancl1)
  from 4(1)[OF N E this g] have "cyclic_from s E" .
  then show ?case using cyclic_from_step[of X E s] xe by blast
next
  case (5 fuel BASE_T TUPLE_T tuple s)
  then show ?case by simp
next
  case (6 fuel BASE_T TUPLE_T N indices tuple s)
  show ?case
  proof (cases "construct_tuple_assign fuel BASE_T N TUPLE_T tuple s")
    case (Returned tu1 s1)
    then have r: "construct_tuple fuel BASE_T TUPLE_T indices tu1 s1 = Blocked" using 6(5) by simp
    have fr: "frame s s1" using construct_tuple_assign_frame(1)[OF Returned] .
    have a: "\<forall>A. flag s1 A = Active \<longrightarrow> (A, X) \<in> (dep_rel s1)\<^sup>*"
      using 6(3) fr by (simp add: dep_rel_frame[OF fr] frame_def)
    have d: "\<forall>N\<in>set indices. \<forall>E. N < length TUPLE_T \<and> TUPLE_T ! N = Shared_ptr E \<longrightarrow>
               (X, E) \<in> dep_rel s1"
      using 6(4) by (simp add: dep_rel_frame[OF fr])
    from 6(2)[OF Returned a d r] show ?thesis by (simp add: cyclic_from_frame[OF fr])
  next
    case Blocked
    from 6(1)[OF 6(3) _ Blocked] 6(4) show ?thesis by simp
  qed (use 6(5) in simp_all)
qed

lemma registry_get_blocked_cyclic:
  "quiescent s \<Longrightarrow> registry_get fuel T s = Blocked \<Longrightarrow> cyclic_from s T"
  using blocked_cyclic(1)[of s T fuel] by (simp add: quiescent_def)

lemma registry_get_returns_or_cycle:
  assumes cs: "consistent p s" and wb: "well_built s" and wi: "wired S s" and T: "T \<in> S"
    and fuel: "card (pending s) < fuel"
  shows "(\<exists>a s'. registry_get fuel T s = Returned (Some a) s' \<and> a < length (heap s'))
       \<or> (registry_get fuel T s = Blocked \<and> cyclic_from s T)"
proof -
  have nf: "no_failure (registry_get fuel T s)" using no_failure_all(1)[OF wb wi T] .
  have fin: "finite (dom (constructor s))" and ok: "realized_ok s" and q: "quiescent s"
    using cs by (simp_all add: consistent_def)
  have nof: "registry_get fuel T s \<noteq> Out_of_fuel" using enough_fuel(1)[OF fin fuel] .
  show ?thesis
  proof (cases "registry_get fuel T s")
    case (Returned h s')
    from registry_get_Returned[OF Returned] registry_get_realized_ok(1)[OF ok Returned]
    obtain a where "h = Some a" "a < length (heap s')"
      unfolding realized_ok_def by fastforce
    then show ?thesis using Returned by simp
  next
    case Blocked then show ?thesis using registry_get_blocked_cyclic[OF q Blocked] by simp
  qed (use nf nof in \<open>simp_all add: no_failure_def\<close>)
qed

lemma registry_get_returns:
  assumes "consistent p s" "well_built s" "wired S s" "T \<in> S" "\<not> cyclic_from s T"
    "card (pending s) < fuel"
  shows "\<exists>a s'. registry_get fuel T s = Returned (Some a) s' \<and> a < length (heap s')"
  using registry_get_returns_or_cycle[OF assms(1,2,3,4,6)] assms(5) by blast

lemma demo_wired_state:
  "run demo 0 [Add ILogger FileLogger, Add_self Service] init_state
     = Some (add_self demo Service (add demo ILogger FileLogger init_state))"
  by simp

lemma demo_wired_pending:
  "pending (add_self demo Service (add demo ILogger FileLogger init_state)) = {ILogger, Service}"
  by (auto simp: pending_def demo_eval split: if_splits)

lemma demo_wired_wired:
  "wired {ILogger, Service} (add_self demo Service (add demo ILogger FileLogger init_state))"
  by (simp add: wired_def demo_eval element_types_def)

lemma build_demo_wired:
  "build demo_classes demo_loopholes [Add ILogger FileLogger, Add_self Service, Get Service] {}
     = Inr {Service, ILogger}"
  by (simp add: inst_add_self_def inst_add_def as_tuple_demo_Service inst_construct_tuple_def
      inst_construct_tuple_assign_def set_type_def demo_classes_simps demo_names_distinct
      inst_get_def check_type_def)

section \<open>What a call of get returns\<close>

lemma acyclic_by_rank:
  fixes rank :: "ctype \<Rightarrow> nat"
  assumes "\<And>a b f. constructor s a = Some f \<Longrightarrow> b \<in> set (deps_of f) \<Longrightarrow> rank b < rank a"
  shows "\<not> cyclic_from s T"
proof -
  have "(a, b) \<in> (dep_rel s)\<^sup>+ \<Longrightarrow> rank b < rank a" for a b
  proof (induction rule: trancl.induct)
    case (r_into_trancl a b) then show ?case using assms by (auto simp: dep_rel_def)
  next
    case (trancl_into_trancl a b c)
    then have "rank c < rank b" using assms by (auto simp: dep_rel_def)
    then show ?case using trancl_into_trancl by simp
  qed
  then show ?thesis unfolding cyclic_from_def by fastforce
qed

lemma reach_built:
  assumes built: "build cl tbl cs {} = Inr L"
    and calls: "set calls \<subseteq> set cs"
    and reach: "run (compiled cl tbl) fuel0 calls init_state = Some s"
  shows "consistent (compiled cl tbl) s \<and> well_built s"
proof -
  have "\<forall>c\<in>set calls. call_built (compiled cl tbl) c" using build_call_built[OF built] calls by blast
  then have "well_built s" using well_built_run[OF well_built_init _ reach] by simp
  then show ?thesis using consistent_run[OF consistent_init reach] by simp
qed

text \<open>
  C5, as stated, fails. A translation unit that instantiates \<open>add<FileLogger>\<close> and then
  \<open>get<FileLogger>\<close> builds, and nothing orders the calls at run time: a \<open>get\<close> that runs
  before the \<open>add\<close> finds the empty \<open>std::function\<close> and throws.
\<close>

theorem get_before_add_throws:
  "build demo_classes demo_loopholes [Add_self FileLogger, Get FileLogger] {} = Inr {FileLogger}
     \<and> set [Get FileLogger] \<subseteq> set [Add_self FileLogger, Get FileLogger]
     \<and> run demo 1 [] init_state = Some init_state
     \<and> get 1 FileLogger init_state = Thrown Bad_function_call init_state"
proof -
  have "build demo_classes demo_loopholes [Add_self FileLogger, Get FileLogger] {} = Inr {FileLogger}"
    by (simp add: inst_add_self_def inst_add_def set_type_def demo_classes_simps
        inst_get_def check_type_def)
  moreover have "get 1 FileLogger init_state = Thrown Bad_function_call init_state"
    by (simp add: get_def registry_get.simps init_state_def)
  ultimately show ?thesis by simp
qed

text \<open>
  The same exception leaves a program whose calls run in the order of the source: the
  lambda of \<open>Service\<close> resolves \<open>ILogger\<close> through \<open>registry<ILogger>::get()\<close>, which
  no \<open>check_type\<close> guards.
\<close>

lemma unregistered_dependency_throws:
  "build demo_classes demo_loopholes [Add_self Service, Get Service] {} = Inr {Service}
     \<and> get 2 Service (add_self demo Service init_state)
         = Thrown Bad_function_call (add_self demo Service init_state)"
proof -
  have "build demo_classes demo_loopholes [Add_self Service, Get Service] {} = Inr {Service}"
    using build_demo_Service by (auto simp: inst_get_def check_type_def split: sum.splits)
  moreover have "get 2 Service (add_self demo Service init_state)
         = Thrown Bad_function_call (add_self demo Service init_state)"
    by (auto simp add: demo_eval numeral_2_eq_2 element_types_def)
  ultimately show ?thesis by simp
qed

text \<open>
  C5, amended. In a program that was built, at any state its calls can reach, a call of
  \<open>get<T>()\<close> returns the address of a live object, or it never returns and \<open>T\<close> has a
  cyclic dependency, provided that \<open>T\<close> belongs to a set of types that is wired: each has
  a stored lambda, and the element types that lambda resolves are in the set. The fuel
  only has to exceed the number of registries that wait for their first \<open>get\<close>.
\<close>

theorem get_returns_or_blocks_on_cycle:
  assumes built: "build cl tbl cs {} = Inr L"
    and calls: "set calls \<subseteq> set cs"
    and reach: "run (compiled cl tbl) fuel0 calls init_state = Some s"
    and wired: "wired S s" and T: "T \<in> S"
    and fuel: "card (pending s) < fuel"
  shows "(\<exists>a s'. get fuel T s = Returned (Some a) s' \<and> a < length (heap s'))
       \<or> (get fuel T s = Blocked \<and> cyclic_from s T)"
proof -
  from reach_built[OF built calls reach]
  have cs: "consistent (compiled cl tbl) s" and wb: "well_built s" by simp_all
  from registry_get_returns_or_cycle[OF cs wb wired T fuel] show ?thesis by (simp add: get_def)
qed

lemma demo_wired_acyclic:
  "\<not> cyclic_from (add_self demo Service (add demo ILogger FileLogger init_state)) T"
  by (rule acyclic_by_rank[where rank = "\<lambda>T. if T = ILogger then 0 else 1"])
    (auto simp: demo_eval element_types_def split: if_splits)

lemma ring_names_distinct: "Ping \<noteq> Pong" "Pong \<noteq> Ping"
  by (simp_all add: Ping_def Pong_def)

lemma ring_loopholes_eq:
  "ring_loopholes = [(Ping, 0) \<mapsto> Shared_ptr Pong, (Pong, 0) \<mapsto> Shared_ptr Ping]"
  by (simp add: ring_loopholes_def c_op_convert_def fn_def_def fn_def_enabled_def ins_is_char_def
      Ping_def Pong_def)

lemma as_tuple_ring:
  "as_tuple ring_classes ring_loopholes Ping = Inr [Shared_ptr Pong]"
  "as_tuple ring_classes ring_loopholes Pong = Inr [Shared_ptr Ping]"
  by (simp_all add: as_tuple_def ring_classes_def ring_loopholes_eq numeral_3_eq_3 ring_names_distinct
      sizeof_pack_int_def sizeof_pack_def to_int_def make_integer_sequence_def)

lemma ring_lambdas:
  "lambda_of ring I Ping = Tuple_ctor I Ping [Shared_ptr Pong]"
  "lambda_of ring I Pong = Tuple_ctor I Pong [Shared_ptr Ping]"
proof -
  have "default_constructible ring_classes T = False" for T by (simp add: ring_classes_def)
  then show "lambda_of ring I Ping = Tuple_ctor I Ping [Shared_ptr Pong]"
    "lambda_of ring I Pong = Tuple_ctor I Pong [Shared_ptr Ping]"
    by (simp_all add: lambda_of_def ring_def compiled_def as_tuple_ring)
qed

lemmas ring_eval = get_def add_self_def add_eq ring_lambdas init_state_def registry_get.simps
  construct_tuple_assign.simps make_shared_def static_pointer_cast_def ring_names_distinct

lemma build_ring:
  "build ring_classes ring_loopholes [Add_self Ping, Add_self Pong, Get Ping] {} = Inr {Pong, Ping}"
proof -
  have d: "default_constructible ring_classes T = False" for T by (simp add: ring_classes_def)
  show ?thesis
    by (simp add: inst_add_self_def inst_add_def as_tuple_ring inst_construct_tuple_def
        inst_construct_tuple_assign_def set_type_def inst_get_def check_type_def d)
qed

lemma ring_wired:
  "wired {Ping, Pong} (add_self ring Pong (add_self ring Ping init_state))"
  by (simp add: wired_def ring_eval element_types_def)

lemma ring_pending:
  "pending (add_self ring Pong (add_self ring Ping init_state)) = {Ping, Pong}"
  by (auto simp: pending_def ring_eval split: if_splits)

theorem get_returns_or_blocks_on_cycle_witness:
  "build demo_classes demo_loopholes [Add ILogger FileLogger, Add_self Service, Get Service] {}
     = Inr {Service, ILogger}
   \<and> set [Add ILogger FileLogger, Add_self Service]
        \<subseteq> set [Add ILogger FileLogger, Add_self Service, Get Service]
   \<and> run demo 0 [Add ILogger FileLogger, Add_self Service] init_state
        = Some (add_self demo Service (add demo ILogger FileLogger init_state))
   \<and> wired {ILogger, Service} (add_self demo Service (add demo ILogger FileLogger init_state))
   \<and> Service \<in> {ILogger, Service}
   \<and> card (pending (add_self demo Service (add demo ILogger FileLogger init_state))) < 3
   \<and> \<not> cyclic_from (add_self demo Service (add demo ILogger FileLogger init_state)) Service
   \<and> (\<exists>a s'. get 3 Service (add_self demo Service (add demo ILogger FileLogger init_state))
          = Returned (Some a) s' \<and> a < length (heap s'))
   \<and> build ring_classes ring_loopholes [Add_self Ping, Add_self Pong, Get Ping] {} = Inr {Pong, Ping}
   \<and> run ring 0 [Add_self Ping, Add_self Pong] init_state
        = Some (add_self ring Pong (add_self ring Ping init_state))
   \<and> wired {Ping, Pong} (add_self ring Pong (add_self ring Ping init_state))
   \<and> card (pending (add_self ring Pong (add_self ring Ping init_state))) < 3
   \<and> value_of (get 3 Ping (add_self ring Pong (add_self ring Ping init_state))) = None
   \<and> get 3 Ping (add_self ring Pong (add_self ring Ping init_state)) = Blocked
   \<and> cyclic_from (add_self ring Pong (add_self ring Ping init_state)) Ping"
proof -
  let ?s = "add_self demo Service (add demo ILogger FileLogger init_state)"
  let ?r = "add_self ring Pong (add_self ring Ping init_state)"
  have sub: "set [Add ILogger FileLogger, Add_self Service]
        \<subseteq> set [Add ILogger FileLogger, Add_self Service, Get Service]" by auto
  have T: "Service \<in> {ILogger, Service}" by simp
  have c: "card (pending ?s) < 3" by (simp add: demo_wired_pending demo_names_distinct)
  have rs: "run (compiled demo_classes demo_loopholes) 0 [Add ILogger FileLogger, Add_self Service]
      init_state = Some ?s"
    using demo_wired_state by (simp add: demo_def)
  from get_returns_or_blocks_on_cycle[OF build_demo_wired sub rs demo_wired_wired T c]
    demo_wired_acyclic[of Service]
  have 1: "\<exists>a s'. get 3 Service ?s = Returned (Some a) s' \<and> a < length (heap s')" by blast
  have sub2: "set [Add_self Ping, Add_self Pong] \<subseteq> set [Add_self Ping, Add_self Pong, Get Ping]"
    by auto
  have rr: "run (compiled ring_classes ring_loopholes) 0 [Add_self Ping, Add_self Pong] init_state
      = Some ?r" by (simp add: ring_def)
  have T2: "Ping \<in> {Ping, Pong}" by simp
  have c2: "card (pending ?r) < 3" by (simp add: ring_pending ring_names_distinct)
  have v: "value_of (get 3 Ping ?r) = None"
    by (simp add: ring_eval numeral_3_eq_3 value_of_def)
  from get_returns_or_blocks_on_cycle[OF build_ring sub2 rr ring_wired T2 c2] v
  have 2: "get 3 Ping ?r = Blocked \<and> cyclic_from ?r Ping" by (auto simp: value_of_def)
  show ?thesis
    using build_demo_wired sub demo_wired_state demo_wired_wired T c demo_wired_acyclic[of Service] 1
      build_ring rr ring_wired c2 v 2
    by (simp add: ring_def)
qed

lemma get_returns:
  assumes "consistent p s" "well_built s" "wired S s" "T \<in> S" "\<not> cyclic_from s T"
    "card (pending s) < fuel"
  shows "\<exists>a s'. get fuel T s = Returned (Some a) s' \<and> a < length (heap s')"
  using registry_get_returns[OF assms] by (simp add: get_def)

lemma after_get_ready:
  assumes cs: "consistent p s" and wb: "well_built s" and wi: "wired S s"
    and fuel: "card (pending s) < fuel" and g: "get fuel0 T s = Returned h s'"
  shows "consistent p s' \<and> well_built s' \<and> wired S s' \<and> card (pending s') < fuel
       \<and> (\<forall>U. cyclic_from s' U = cyclic_from s U)"
proof -
  from g have r: "registry_get fuel0 T s = Returned h s'" by (simp add: get_def)
  have fr: "frame s s'" using registry_get_frame(1)[OF r] .
  have ok: "realized_ok s'" using registry_get_realized_ok(1)[OF _ r] cs by (simp add: consistent_def)
  have fin: "finite (dom (constructor s))" using cs by (simp add: consistent_def)
  show ?thesis
    using consistent_frame[OF cs fr ok] well_built_frame[OF fr] wired_frame[OF fr] wb wi
      card_pending_frame[OF fr fin] fuel cyclic_from_frame[OF fr]
    by auto
qed




text \<open>
  C2, as stated, fails. After \<open>add<Service>()\<close> the call \<open>add<Service, MockService>()\<close>
  is a no-op, but with \<open>ILogger\<close> unbound the following \<open>get<Service>()\<close> throws: it
  returns no instance, of either class.
\<close>

theorem first_writer_get_throws:
  "build demo_classes demo_loopholes [Add_self Service, Add Service MockService, Get Service] {}
     = Inr {Service}
   \<and> run demo 0 [Add_self Service, Add Service MockService] init_state
       = Some (add_self demo Service init_state)
   \<and> add demo Service MockService (add_self demo Service init_state) = add_self demo Service init_state
   \<and> get 2 Service (add_self demo Service init_state)
       = Thrown Bad_function_call (add_self demo Service init_state)
   \<and> value_of (get 2 Service (add_self demo Service init_state)) = None"
proof -
  let ?s0 = "add_self demo Service init_state"
  have b: "build demo_classes demo_loopholes [Add_self Service, Add Service MockService, Get Service] {}
     = Inr {Service}"
    by (simp add: inst_add_self_def inst_add_def as_tuple_demo_Service inst_construct_tuple_def
      inst_construct_tuple_assign_def set_type_def demo_classes_simps demo_names_distinct
      inst_get_def check_type_def)
  have n: "add demo Service MockService ?s0 = ?s0" by (simp add: demo_eval)
  have r: "run demo 0 [Add_self Service, Add Service MockService] init_state = Some ?s0"
    using n by simp
  have t: "get 2 Service ?s0 = Thrown Bad_function_call ?s0"
    by (auto simp add: demo_eval numeral_2_eq_2 element_types_def)
  show ?thesis using b n r t by (simp add: value_of_def)
qed

text \<open>
  C2, amended. Once \<open>add<I, A>()\<close> has stored a lambda for an unbound \<open>I\<close>, a later
  \<open>add<I, B>()\<close> changes nothing and the stored lambda stays that of \<open>A\<close>, whatever calls
  came in between; every handle that \<open>get<I>()\<close> returns refers to a live object of
  class \<open>A\<close>; and \<open>get<I>()\<close> does return one when \<open>I\<close> belongs to a wired set of types
  and has no cyclic dependency.
\<close>

theorem first_writer_wins_once_wired:
  assumes reach: "run p fuel0 calls0 init_state = Some s"
    and unbound: "constructor s I = None"
    and later: "run p fuel1 calls1 (add p I A s) = Some s2"
  shows "add p I B s2 = s2 \<and> constructor s2 I = Some (lambda_of p I A)
       \<and> (\<forall>fuel2 h s3. get fuel2 I s2 = Returned h s3 \<longrightarrow>
             (\<exists>a. h = Some a \<and> a < length (heap s3) \<and> cls (heap s3 ! a) = A))
       \<and> (well_built s2 \<and> wired S s2 \<and> I \<in> S \<and> \<not> cyclic_from s2 I \<and> card (pending s2) < fuel \<longrightarrow>
             (\<exists>a s3. get fuel I s2 = Returned (Some a) s3 \<and> a < length (heap s3)
                \<and> cls (heap s3 ! a) = A))"
proof -
  have c1: "constructor (add p I A s) I = Some (lambda_of p I A)"
    using unbound by (rule add_constructor_new)
  then have c2: "constructor s2 I = Some (lambda_of p I A)" using run_keeps[OF later] by blast
  then have n: "add p I B s2 = s2" by (simp add: add_noop)
  have r: "\<forall>fuel2 h s3. get fuel2 I s2 = Returned h s3 \<longrightarrow>
             (\<exists>a. h = Some a \<and> a < length (heap s3) \<and> cls (heap s3 ! a) = A)"
    using first_writer_if_returned[OF reach unbound later] by blast
  have cs: "consistent p s2"
    using consistent_run[OF consistent_add[OF consistent_run[OF consistent_init reach]] later] .
  have t: "\<exists>a s3. get fuel I s2 = Returned (Some a) s3 \<and> a < length (heap s3) \<and> cls (heap s3 ! a) = A"
    if h: "well_built s2 \<and> wired S s2 \<and> I \<in> S \<and> \<not> cyclic_from s2 I \<and> card (pending s2) < fuel"
  proof -
    from get_returns[OF cs, of S I fuel] h obtain a s3 where g: "get fuel I s2 = Returned (Some a) s3"
      by blast
    with r show ?thesis by fastforce
  qed
  show ?thesis using n c2 r t by blast
qed

lemma demo_two_loggers_state:
  "run demo 2 [Add ILogger ConsoleLogger, Add_self Service] (add demo ILogger FileLogger init_state)
     = Some (add_self demo Service (add demo ILogger FileLogger init_state))"
  by (simp add: demo_eval)

lemma demo_wired_well_built:
  "well_built (add_self demo Service (add demo ILogger FileLogger init_state))"
  by (simp add: well_built_def demo_eval)

theorem first_writer_wins_once_wired_witness:
  "run demo 0 [] init_state = Some init_state
   \<and> constructor init_state ILogger = None
   \<and> run demo 2 [Add ILogger ConsoleLogger, Add_self Service] (add demo ILogger FileLogger init_state)
       = Some (add_self demo Service (add demo ILogger FileLogger init_state))
   \<and> add demo ILogger ConsoleLogger (add_self demo Service (add demo ILogger FileLogger init_state))
       = add_self demo Service (add demo ILogger FileLogger init_state)
   \<and> well_built (add_self demo Service (add demo ILogger FileLogger init_state))
   \<and> wired {ILogger, Service} (add_self demo Service (add demo ILogger FileLogger init_state))
   \<and> \<not> cyclic_from (add_self demo Service (add demo ILogger FileLogger init_state)) ILogger
   \<and> card (pending (add_self demo Service (add demo ILogger FileLogger init_state))) < 3
   \<and> (\<exists>a s3. get 3 ILogger (add_self demo Service (add demo ILogger FileLogger init_state))
                 = Returned (Some a) s3
         \<and> a < length (heap s3) \<and> cls (heap s3 ! a) = FileLogger)
   \<and> run demo 0 [Add ILogger FileLogger] init_state = Some (add demo ILogger FileLogger init_state)
   \<and> constructor (add demo ILogger FileLogger init_state) Service = None
   \<and> run demo 2 [Add Service MockService, Add ILogger ConsoleLogger]
         (add demo Service Service (add demo ILogger FileLogger init_state))
       = Some (add_self demo Service (add demo ILogger FileLogger init_state))
   \<and> add demo Service MockService (add_self demo Service (add demo ILogger FileLogger init_state))
       = add_self demo Service (add demo ILogger FileLogger init_state)
   \<and> constructor (add_self demo Service (add demo ILogger FileLogger init_state)) Service
       = Some (Tuple_ctor Service Service [Shared_ptr ILogger])
   \<and> \<not> cyclic_from (add_self demo Service (add demo ILogger FileLogger init_state)) Service
   \<and> (\<exists>a s3. get 3 Service (add_self demo Service (add demo ILogger FileLogger init_state))
                 = Returned (Some a) s3
         \<and> a < length (heap s3) \<and> cls (heap s3 ! a) = Service)"
proof -
  let ?t = "add demo ILogger FileLogger init_state"
  let ?s = "add_self demo Service (add demo ILogger FileLogger init_state)"
  have r: "run demo 0 [] init_state = Some init_state" by simp
  have u: "constructor init_state ILogger = None" by (simp add: init_state_def)
  have c: "card (pending ?s) < 3" by (simp add: demo_wired_pending demo_names_distinct)
  note th = first_writer_wins_once_wired[OF r u demo_two_loggers_state,
      of ConsoleLogger "{ILogger, Service}" 3]
  from th demo_wired_well_built demo_wired_wired demo_wired_acyclic[of ILogger] c
  have 1: "add demo ILogger ConsoleLogger ?s = ?s"
    and 2: "\<exists>a s3. get 3 ILogger ?s = Returned (Some a) s3 \<and> a < length (heap s3)
          \<and> cls (heap s3 ! a) = FileLogger"
    by simp_all
  have r': "run demo 0 [Add ILogger FileLogger] init_state = Some ?t" by simp
  have u': "constructor ?t Service = None" by (simp add: demo_eval)
  have l': "run demo 2 [Add Service MockService, Add ILogger ConsoleLogger] (add demo Service Service ?t)
       = Some ?s"
    by (simp add: demo_eval)
  have S: "Service \<in> {ILogger, Service}" by simp
  note th' = first_writer_wins_once_wired[OF r' u' l', of MockService "{ILogger, Service}" 3]
  have lam: "lambda_of demo Service Service = Tuple_ctor Service Service [Shared_ptr ILogger]"
    by (simp add: demo_lambdas)
  from th' demo_wired_well_built demo_wired_wired S demo_wired_acyclic[of Service] c
  have 3: "add demo Service MockService ?s = ?s"
    and 4: "constructor ?s Service = Some (Tuple_ctor Service Service [Shared_ptr ILogger])"
    and 5: "\<exists>a s3. get 3 Service ?s = Returned (Some a) s3 \<and> a < length (heap s3)
          \<and> cls (heap s3 ! a) = Service"
    by (simp_all add: lam)
  show ?thesis
    using r u demo_two_loggers_state 1 demo_wired_well_built demo_wired_wired
      demo_wired_acyclic[of ILogger] c 2 r' u' l' 3 4 demo_wired_acyclic[of Service] 5
    by blast
qed




text \<open>
  C10, as stated, fails. With \<open>Service\<close> bound to \<open>IService\<close> and to \<open>IRunner\<close> and
  \<open>ILogger\<close> unbound, \<open>get<IService>()\<close> throws: no instance of \<open>Service\<close> is built or
  returned.
\<close>

theorem two_interfaces_get_throws:
  "build demo_classes demo_loopholes
      [Add IService Service, Add IRunner Service, Get IService, Get IRunner] {}
     = Inr {IRunner, IService}
   \<and> run demo 0 [Add IService Service, Add IRunner Service] init_state
       = Some (add demo IRunner Service (add demo IService Service init_state))
   \<and> get 2 IService (add demo IRunner Service (add demo IService Service init_state))
       = Thrown Bad_function_call (add demo IRunner Service (add demo IService Service init_state))
   \<and> value_of (get 2 IService (add demo IRunner Service (add demo IService Service init_state)))
       = None
   \<and> constructed Service (add demo IRunner Service (add demo IService Service init_state)) = 0"
proof -
  let ?s0 = "add demo IRunner Service (add demo IService Service init_state)"
  have b: "build demo_classes demo_loopholes
      [Add IService Service, Add IRunner Service, Get IService, Get IRunner] {}
     = Inr {IRunner, IService}"
    by (simp add: inst_add_def as_tuple_demo_Service inst_construct_tuple_def
      inst_construct_tuple_assign_def set_type_def demo_classes_simps demo_names_distinct
      inst_get_def check_type_def)
  have t: "get 2 IService ?s0 = Thrown Bad_function_call ?s0"
    by (auto simp add: demo_eval numeral_2_eq_2 element_types_def)
  have z: "constructed Service ?s0 = 0" by (simp add: constructed_def init_state_def)
  show ?thesis using b t z by (simp add: value_of_def)
qed

text \<open>
  C10, amended. Registries are keyed by the interface. After \<open>add<I1, Impl>()\<close> and
  \<open>add<I2, Impl>()\<close> for two distinct unbound interfaces, whenever \<open>get<I1>()\<close> and
  \<open>get<I2>()\<close> return, they return handles to two distinct objects of class \<open>Impl\<close>, both
  built after the two registrations, so that the constructor of \<open>Impl\<close> has run at least
  twice more; and both calls do return when the two interfaces belong to a wired set of
  types and have no cyclic dependency.
\<close>

theorem one_instance_per_interface_once_wired:
  assumes reach: "run p fuel0 calls0 init_state = Some s"
    and ne: "I1 \<noteq> I2"
    and u1: "constructor s I1 = None" and u2: "constructor s I2 = None"
  shows "(\<forall>fuel1 h1 s2 fuel2 h2 s3.
            get fuel1 I1 (add p I2 Impl (add p I1 Impl s)) = Returned h1 s2
            \<and> get fuel2 I2 s2 = Returned h2 s3 \<longrightarrow>
            (\<exists>a1 a2. h1 = Some a1 \<and> h2 = Some a2 \<and> a1 \<noteq> a2
               \<and> length (heap s) \<le> a1 \<and> a1 < length (heap s3) \<and> cls (heap s3 ! a1) = Impl
               \<and> length (heap s) \<le> a2 \<and> a2 < length (heap s3) \<and> cls (heap s3 ! a2) = Impl
               \<and> constructed Impl s + 2 \<le> constructed Impl s3))
       \<and> (well_built (add p I2 Impl (add p I1 Impl s))
            \<and> wired S (add p I2 Impl (add p I1 Impl s)) \<and> I1 \<in> S \<and> I2 \<in> S
            \<and> \<not> cyclic_from (add p I2 Impl (add p I1 Impl s)) I1
            \<and> \<not> cyclic_from (add p I2 Impl (add p I1 Impl s)) I2
            \<and> card (pending (add p I2 Impl (add p I1 Impl s))) < fuel \<longrightarrow>
            (\<exists>a1 a2 s2 s3.
               get fuel I1 (add p I2 Impl (add p I1 Impl s)) = Returned (Some a1) s2
               \<and> get fuel I2 s2 = Returned (Some a2) s3 \<and> a1 \<noteq> a2
               \<and> length (heap s) \<le> a1 \<and> a1 < length (heap s3) \<and> cls (heap s3 ! a1) = Impl
               \<and> length (heap s) \<le> a2 \<and> a2 < length (heap s3) \<and> cls (heap s3 ! a2) = Impl
               \<and> constructed Impl s + 2 \<le> constructed Impl s3))"
proof (intro conjI allI impI)
  fix fuel1 h1 s2 fuel2 h2 s3
  assume "get fuel1 I1 (add p I2 Impl (add p I1 Impl s)) = Returned h1 s2
            \<and> get fuel2 I2 s2 = Returned h2 s3"
  then show "\<exists>a1 a2. h1 = Some a1 \<and> h2 = Some a2 \<and> a1 \<noteq> a2
               \<and> length (heap s) \<le> a1 \<and> a1 < length (heap s3) \<and> cls (heap s3 ! a1) = Impl
               \<and> length (heap s) \<le> a2 \<and> a2 < length (heap s3) \<and> cls (heap s3 ! a2) = Impl
               \<and> constructed Impl s + 2 \<le> constructed Impl s3"
    using two_instances_if_returned[OF reach ne u1 u2] by blast
next
  let ?s1 = "add p I2 Impl (add p I1 Impl s)"
  assume h: "well_built ?s1 \<and> wired S ?s1 \<and> I1 \<in> S \<and> I2 \<in> S
            \<and> \<not> cyclic_from ?s1 I1 \<and> \<not> cyclic_from ?s1 I2 \<and> card (pending ?s1) < fuel"
  have cs1: "consistent p ?s1"
    using consistent_run[OF consistent_init reach] by (intro consistent_add)
  from get_returns[OF cs1, of S I1 fuel] h
  obtain a1 s2 where g1: "get fuel I1 ?s1 = Returned (Some a1) s2" by blast
  from after_get_ready[OF cs1 _ _ _ g1, of S fuel] h
  have r2: "consistent p s2" "well_built s2" "wired S s2" "card (pending s2) < fuel"
    "\<not> cyclic_from s2 I2" by simp_all
  from get_returns[OF r2(1,2,3) _ r2(5,4)] h
  obtain a2 s3 where g2: "get fuel I2 s2 = Returned (Some a2) s3" by blast
  from two_instances_if_returned[OF reach ne u1 u2 g1 g2]
  show "\<exists>a1 a2 s2 s3.
               get fuel I1 ?s1 = Returned (Some a1) s2
               \<and> get fuel I2 s2 = Returned (Some a2) s3 \<and> a1 \<noteq> a2
               \<and> length (heap s) \<le> a1 \<and> a1 < length (heap s3) \<and> cls (heap s3 ! a1) = Impl
               \<and> length (heap s) \<le> a2 \<and> a2 < length (heap s3) \<and> cls (heap s3 ! a2) = Impl
               \<and> constructed Impl s + 2 \<le> constructed Impl s3"
    using g1 g2 by auto
qed

lemma demo_two_services_facts:
  "well_built (add demo IRunner Service (add demo IService Service (add demo ILogger FileLogger init_state)))"
  "wired {ILogger, IService, IRunner}
     (add demo IRunner Service (add demo IService Service (add demo ILogger FileLogger init_state)))"
  "pending (add demo IRunner Service (add demo IService Service (add demo ILogger FileLogger init_state)))
     = {ILogger, IService, IRunner}"
  "\<not> cyclic_from
     (add demo IRunner Service (add demo IService Service (add demo ILogger FileLogger init_state))) T"
proof -
  let ?s = "add demo IRunner Service (add demo IService Service (add demo ILogger FileLogger init_state))"
  show "well_built ?s" by (simp add: well_built_def demo_eval)
  show "wired {ILogger, IService, IRunner} ?s" by (simp add: wired_def demo_eval element_types_def)
  show "pending ?s = {ILogger, IService, IRunner}"
    by (auto simp: pending_def demo_eval split: if_splits)
  show "\<not> cyclic_from ?s T"
    by (rule acyclic_by_rank[where rank = "\<lambda>T. if T = ILogger then 0 else 1"])
      (auto simp: demo_eval element_types_def split: if_splits)
qed

theorem one_instance_per_interface_once_wired_witness:
  "run demo 0 [Add ILogger FileLogger] init_state = Some (add demo ILogger FileLogger init_state)
   \<and> IService \<noteq> IRunner
   \<and> constructor (add demo ILogger FileLogger init_state) IService = None
   \<and> constructor (add demo ILogger FileLogger init_state) IRunner = None
   \<and> well_built (add demo IRunner Service (add demo IService Service (add demo ILogger FileLogger init_state)))
   \<and> wired {ILogger, IService, IRunner}
        (add demo IRunner Service (add demo IService Service (add demo ILogger FileLogger init_state)))
   \<and> \<not> cyclic_from
        (add demo IRunner Service (add demo IService Service (add demo ILogger FileLogger init_state)))
        IService
   \<and> \<not> cyclic_from
        (add demo IRunner Service (add demo IService Service (add demo ILogger FileLogger init_state)))
        IRunner
   \<and> card (pending
        (add demo IRunner Service (add demo IService Service (add demo ILogger FileLogger init_state)))) < 4
   \<and> (\<exists>a1 a2 s2 s3.
        get 4 IService
          (add demo IRunner Service (add demo IService Service (add demo ILogger FileLogger init_state)))
          = Returned (Some a1) s2
        \<and> get 4 IRunner s2 = Returned (Some a2) s3 \<and> a1 \<noteq> a2
        \<and> cls (heap s3 ! a1) = Service \<and> cls (heap s3 ! a2) = Service
        \<and> constructed Service (add demo ILogger FileLogger init_state) + 2 \<le> constructed Service s3)"
proof -
  let ?s = "add demo ILogger FileLogger init_state"
  let ?s1 = "add demo IRunner Service (add demo IService Service ?s)"
  have r: "run demo 0 [Add ILogger FileLogger] init_state = Some ?s" by simp
  have ne: "IService \<noteq> IRunner" by (simp add: demo_names_distinct)
  have u: "constructor ?s IService = None" "constructor ?s IRunner = None"
    by (simp_all add: demo_eval)
  have c: "card (pending ?s1) < 4"
    by (simp add: demo_two_services_facts(3) demo_names_distinct)
  have S: "IService \<in> {ILogger, IService, IRunner}" "IRunner \<in> {ILogger, IService, IRunner}"
    by simp_all
  note th = one_instance_per_interface_once_wired[OF r ne u, of Service "{ILogger, IService, IRunner}" 4]
  from th demo_two_services_facts(1,2) S demo_two_services_facts(4)[of IService]
    demo_two_services_facts(4)[of IRunner] c
  have "\<exists>a1 a2 s2 s3.
        get 4 IService ?s1 = Returned (Some a1) s2
        \<and> get 4 IRunner s2 = Returned (Some a2) s3 \<and> a1 \<noteq> a2
        \<and> cls (heap s3 ! a1) = Service \<and> cls (heap s3 ! a2) = Service
        \<and> constructed Service ?s + 2 \<le> constructed Service s3"
    by blast
  then show ?thesis
    using r ne u demo_two_services_facts(1,2) demo_two_services_facts(4)[of IService]
      demo_two_services_facts(4)[of IRunner] c
    by blast
qed

section \<open>Aggregate-field counting and the tuple type\<close>










end
